theory Spec2Isabelle
  imports Complex_Main
begin

section \<open>Data model\<close>

text \<open>
  The arterial waveform is a numpy array of floats that may hold NaN gaps. A sample is a
  \<open>real option\<close>, \<open>None\<close> standing for NaN; arithmetic on the finite samples is exact
  (floating-point rounding and infinities are outside the model). Seconds and indices are
  Python integers, hence \<open>int\<close>. An event or window is the pair \<open>(start, end)\<close> the code
  appends to its lists.
\<close>

type_synonym track = "real option list"
type_synonym interval = "int \<times> int"

datatype error = UnboundLocalError

definition ABP_ECG_SRATE_HZ :: int where
  "ABP_ECG_SRATE_HZ = 500"

definition ALL_PREDICTION_WINDOWS :: "int list" where
  "ALL_PREDICTION_WINDOWS = [3, 5, 10, 15]"

subsection \<open>Slices and means\<close>

text \<open>
  \<open>abp[a:b]\<close>: a negative bound counts from the end, and every bound is clipped to the
  array.
\<close>

definition slice_bound :: "nat \<Rightarrow> int \<Rightarrow> nat" where
  "slice_bound n k = (if k < 0 then nat (max 0 (k + int n)) else min (nat k) n)"

definition slice :: "'a list \<Rightarrow> int \<Rightarrow> int \<Rightarrow> 'a list" where
  "slice xs a b =
     (let lo = slice_bound (length xs) a; hi = slice_bound (length xs) b
      in take (hi - lo) (drop lo xs))"

fun non_nan :: "track \<Rightarrow> real list" where
  "non_nan [] = []"
| "non_nan (None # xs) = non_nan xs"
| "non_nan (Some v # xs) = v # non_nan xs"

text \<open>
  \<open>np.nanmean\<close>: the mean of the samples that are not NaN; NaN when there is none
  (an empty slice, or a slice of NaN only).
\<close>

definition nanmean :: "track \<Rightarrow> real option" where
  "nanmean xs =
     (case non_nan xs of [] \<Rightarrow> None | v # vs \<Rightarrow> Some (sum_list (v # vs) / real (length (v # vs))))"

text \<open>A comparison with NaN is false, whichever way it points.\<close>

definition mean_ge :: "real option \<Rightarrow> real \<Rightarrow> bool" where
  "mean_ge m t = (case m of None \<Rightarrow> False | Some v \<Rightarrow> t \<le> v)"

definition mean_lt :: "real option \<Rightarrow> real \<Rightarrow> bool" where
  "mean_lt m t = (case m of None \<Rightarrow> False | Some v \<Rightarrow> v < t)"

text \<open>\<open>np.nanmean(abp[a * ABP_ECG_SRATE_HZ:b * ABP_ECG_SRATE_HZ])\<close>, for seconds \<open>a\<close>, \<open>b\<close>.\<close>

definition window_mean :: "track \<Rightarrow> int \<Rightarrow> int \<Rightarrow> real option" where
  "window_mean abp a b = nanmean (slice abp (a * ABP_ECG_SRATE_HZ) (b * ABP_ECG_SRATE_HZ))"

definition track_length_seconds :: "track \<Rightarrow> int" where
  "track_length_seconds abp = int (length abp) div ABP_ECG_SRATE_HZ"

section \<open>First pass: IOH events\<close>

text \<open>
  The inner loop \<open>for j in range(i + 60, track_length_seconds)\<close>. The loop variable \<open>j\<close>
  is a local of \<open>extract_segments\<close> and keeps its last value after the loop; the second
  component of the result is that value (\<open>jv\<close> is the binding before the iteration,
  \<open>None\<close> when \<open>j\<close> was never assigned). The first component is \<open>segmentEnd\<close>.
\<close>

function forward_search :: "track \<Rightarrow> int \<Rightarrow> int \<Rightarrow> int option \<Rightarrow> int option \<times> int option" where
  "forward_search abp tls j jv =
     (if j < tls then
        (if mean_ge (window_mean abp (j - 60) j) 65 then (Some (j - 1), Some j)
         else forward_search abp tls (j + 1) (Some j))
      else (None, jv))"
  by pat_completeness auto
termination
  by (relation "measure (\<lambda>(abp, tls, j, jv). nat (tls - j))") auto

lemma forward_search_end_ge:
  "forward_search abp tls j jv = (Some e, j') \<Longrightarrow> j - 1 \<le> e"
proof (induction abp tls j jv rule: forward_search.induct)
  case (1 abp tls j jv)
  show ?case
  proof (cases "j < tls")
    case False
    with "1.prems" show ?thesis by simp
  next
    case True
    show ?thesis
    proof (cases "mean_ge (window_mean abp (j - 60) j) 65")
      case True
      with \<open>j < tls\<close> "1.prems" show ?thesis by simp
    next
      case False
      with \<open>j < tls\<close> "1.prems" "1.IH" have "j + 1 - 1 \<le> e" by simp
      then show ?thesis by simp
    qed
  qed
qed

text \<open>
  The \<open>while i < track_length_seconds - 60\<close> loop. The state is the cursor \<open>i\<close>,
  \<open>started\<close>, \<open>trackStartIndex\<close>, \<open>iohEvents\<close> and the variable \<open>j\<close>; \<open>eofReached\<close> is
  the \<open>break\<close>, which returns the state as it stands.
\<close>

function first_pass_loop ::
  "track \<Rightarrow> int \<Rightarrow> int \<Rightarrow> bool \<Rightarrow> int option \<Rightarrow> interval list \<Rightarrow> int option
     \<Rightarrow> interval list \<times> int option \<times> int option" where
  "first_pass_loop abp tls i started trackStartIndex iohEvents jv =
     (if i < tls - 60 then
        (if \<not> started then
           (if mean_ge (window_mean abp i (i + 60)) 65
            then first_pass_loop abp tls (i + 1) True (Some i) iohEvents jv
            else first_pass_loop abp tls (i + 1) False trackStartIndex iohEvents jv)
         else if mean_lt (window_mean abp i (i + 60)) 65 then
           (case forward_search abp tls (i + 60) jv of
              (None, jv') \<Rightarrow> (iohEvents, trackStartIndex, jv')
            | (Some segmentEnd, jv') \<Rightarrow>
                first_pass_loop abp tls (segmentEnd + 1) True trackStartIndex
                  (iohEvents @ [(i, segmentEnd)]) jv')
         else first_pass_loop abp tls (i + 1) True trackStartIndex iohEvents jv)
      else (iohEvents, trackStartIndex, jv))"
  by pat_completeness auto
termination
proof (relation "measure (\<lambda>(abp, tls, i, started, tsi, evs, jv). nat (tls - i))", goal_cases)
  case 1
  show ?case by simp
next
  case (2 abp tls i started trackStartIndex iohEvents jv)
  then show ?case by simp
next
  case (3 abp tls i started trackStartIndex iohEvents jv)
  then show ?case by simp
next
  case (4 abp tls i started trackStartIndex iohEvents jv x1 x2 segmentEnd)
  from 4 have "forward_search abp tls (i + 60) jv = (Some segmentEnd, x2)" by simp
  from forward_search_end_ge [OF this] have "i + 59 \<le> segmentEnd" by simp
  with 4 show ?case by simp
next
  case (5 abp tls i started trackStartIndex iohEvents jv)
  then show ?case by simp
qed

text \<open>The first pass of one case, entered with the binding \<open>jv\<close> of \<open>j\<close>.\<close>

definition first_pass :: "track \<Rightarrow> int option \<Rightarrow> interval list \<times> int option \<times> int option" where
  "first_pass abp jv = first_pass_loop abp (track_length_seconds abp) 0 False None [] jv"

section \<open>Second pass: clean windows\<close>

text \<open>
  The three-case test the code writes out, in the second pass twice and in the third
  pass once: the window starts during the event, ends during the event, or the event
  lies strictly inside the window.
\<close>

definition overlaps :: "interval \<Rightarrow> interval \<Rightarrow> bool" where
  "overlaps w event =
     ((fst event \<le> fst w \<and> fst w < snd event)
      \<or> (fst event \<le> snd w \<and> snd w < snd event)
      \<or> (fst w < fst event \<and> snd event < snd w))"

text \<open>
  \<open>for event in iohEvents\<close>: \<open>latestEnd\<close> is the end of the last event of the list that
  overlaps; \<open>overlapFound\<close> is set exactly when \<open>latestEnd\<close> is, so it is not a component
  of its own.
\<close>

fun latest_overlap :: "int \<Rightarrow> int \<Rightarrow> interval list \<Rightarrow> int option \<Rightarrow> int option" where
  "latest_overlap s e [] latestEnd = latestEnd"
| "latest_overlap s e (event # rest) latestEnd =
     latest_overlap s e rest (if overlaps (s, e) event then Some (snd event) else latestEnd)"

text \<open>
  The \<open>while i < track_length_seconds - 1800\<close> loop. Reading \<open>j\<close> when it was never
  assigned raises \<open>UnboundLocalError\<close>. On an arbitrary event list the jump to
  \<open>latestEnd + 1\<close> can move the cursor backwards, so the loop need not return: \<open>None\<close> is
  not returning.
\<close>

partial_function (option) second_pass_loop ::
  "track \<Rightarrow> int \<Rightarrow> interval list \<Rightarrow> int option \<Rightarrow> int \<Rightarrow> interval list
     \<Rightarrow> (error + interval list) option" where
  "second_pass_loop abp tls iohEvents jv i cleanEvents =
     (if i < tls - 1800 then
        (case latest_overlap i (i + 1800) iohEvents None of
           Some latestEnd \<Rightarrow> second_pass_loop abp tls iohEvents jv (latestEnd + 1) cleanEvents
         | None \<Rightarrow>
             (if mean_ge (window_mean abp i (i + 1800)) 75 then
                (case jv of
                   None \<Rightarrow> Some (Inl UnboundLocalError)
                 | Some j \<Rightarrow>
                     (if latest_overlap (j - 1800) j iohEvents None = None
                      then second_pass_loop abp tls iohEvents jv (i + 1800 + 1)
                             (cleanEvents @ [(i, i + 1800)])
                      else second_pass_loop abp tls iohEvents jv (i + 10) cleanEvents))
              else second_pass_loop abp tls iohEvents jv (i + 10) cleanEvents))
      else Some (Inr cleanEvents))"

text \<open>\<open>if trackStartIndex is None: trackStartIndex = 0\<close>.\<close>

definition start_index :: "int option \<Rightarrow> int" where
  "start_index tsi = (case tsi of None \<Rightarrow> 0 | Some t \<Rightarrow> t)"

definition second_pass ::
  "track \<Rightarrow> interval list \<Rightarrow> int option \<Rightarrow> int option \<Rightarrow> (error + interval list) option" where
  "second_pass abp iohEvents tsi jv =
     second_pass_loop abp (track_length_seconds abp) iohEvents jv (start_index tsi) []"

section \<open>Third and fourth pass: segments\<close>

text \<open>\<open>for predWindow in ALL_PREDICTION_WINDOWS\<close>, for one event and its predecessor.\<close>

fun positive_candidates ::
  "interval \<Rightarrow> interval option \<Rightarrow> int \<Rightarrow> int list \<Rightarrow> (int \<times> int \<times> int) list" where
  "positive_candidates event previousEvent trackStartIndex [] = []"
| "positive_candidates event previousEvent trackStartIndex (predWindow # rest) =
     (let predictiveSegmentStart = fst event - predWindow * 60;
          predictiveSegmentEnd = predictiveSegmentStart + 60;
          emitted =
            (if predictiveSegmentStart < 0 then False
             else if predictiveSegmentStart < trackStartIndex then False
             else (case previousEvent of
                     None \<Rightarrow> True
                   | Some p \<Rightarrow> \<not> overlaps (predictiveSegmentStart, predictiveSegmentEnd) p))
      in (if emitted then [(predictiveSegmentStart, predictiveSegmentEnd, predWindow)] else [])
         @ positive_candidates event previousEvent trackStartIndex rest)"

text \<open>\<open>for i in range(0, len(iohEvents))\<close>, with \<open>previousEvent = iohEvents[i - 1]\<close> when \<open>i > 0\<close>.\<close>

definition third_pass :: "interval list \<Rightarrow> int \<Rightarrow> (int \<times> int \<times> int) list" where
  "third_pass iohEvents trackStartIndex =
     concat (map (\<lambda>i. positive_candidates (iohEvents ! i)
                        (if 0 < i then Some (iohEvents ! (i - 1)) else None)
                        trackStartIndex ALL_PREDICTION_WINDOWS)
                 [0..<length iohEvents])"

fun fourth_pass :: "interval list \<Rightarrow> interval list" where
  "fourth_pass [] = []"
| "fourth_pass (event # rest) =
     (let timeAtTen = fst event + 600;
          timeAtFifteen = fst event + 900;
          timeAtTwenty = fst event + 1200
      in [(timeAtTen, timeAtTen + 60), (timeAtFifteen, timeAtFifteen + 60),
          (timeAtTwenty, timeAtTwenty + 60)] @ fourth_pass rest)"

section \<open>Persistence and the loop over the cases\<close>

text \<open>
  The segment folder of a case holds one file per segment; a file is modelled by the
  bounds it was cropped to and, for a positive segment, the lead time in its name. The
  store maps a case id to the files of its folder, \<open>None\<close> when the folder does not exist.
\<close>

datatype segment_file = TrueTrack int int int | FalseTrack int int

type_synonym store = "int \<rightharpoonup> segment_file list"

definition areCaseSegmentsCached :: "store \<Rightarrow> int \<Rightarrow> bool" where
  "areCaseSegmentsCached fs caseid = (fs caseid \<noteq> None)"

definition saveCaseSegments ::
  "store \<Rightarrow> int \<Rightarrow> (int \<times> int \<times> int) list \<Rightarrow> interval list \<Rightarrow> store" where
  "saveCaseSegments fs caseid positiveSegments negativeSegments =
     (if length positiveSegments = 0 \<and> length negativeSegments = 0 then fs
      else if fs caseid = None then
        fs(caseid \<mapsto> map (\<lambda>(s, e, w). TrueTrack s e w) positiveSegments
                      @ map (\<lambda>(s, e). FalseTrack s e) negativeSegments)
      else fs)"

text \<open>
  The body of the loop over the cases, for a case that is not cached: the four passes.
  The result is the positive and the negative segments and the binding of \<open>j\<close> the next
  case inherits.
\<close>

definition scan_case ::
  "track \<Rightarrow> int option
     \<Rightarrow> (error + ((int \<times> int \<times> int) list \<times> interval list \<times> int option)) option" where
  "scan_case abp jv =
     (case first_pass abp jv of
        (iohEvents, tsi, jv') \<Rightarrow>
          (case second_pass abp iohEvents tsi jv' of
             None \<Rightarrow> None
           | Some (Inl err) \<Rightarrow> Some (Inl err)
           | Some (Inr cleanEvents) \<Rightarrow>
               Some (Inr (third_pass iohEvents (start_index tsi), fourth_pass cleanEvents, jv'))))"

text \<open>
  \<open>for case_count, caseid in enumerate(cases_of_interest_idx)\<close>; \<open>tracks\<close> is
  \<open>get_track_data\<close>, the arterial track of each case. An exception leaves the loop with
  the store as it stands.
\<close>

fun extract_cases ::
  "(int \<Rightarrow> track) \<Rightarrow> int list \<Rightarrow> int option \<Rightarrow> store \<Rightarrow> (store \<times> error option) option" where
  "extract_cases tracks [] jv fs = Some (fs, None)"
| "extract_cases tracks (caseid # rest) jv fs =
     (if areCaseSegmentsCached fs caseid then extract_cases tracks rest jv fs
      else
        (case scan_case (tracks caseid) jv of
           None \<Rightarrow> None
         | Some (Inl err) \<Rightarrow> Some (fs, Some err)
         | Some (Inr (positiveSegments, negativeSegments, jv')) \<Rightarrow>
             extract_cases tracks rest jv'
               (saveCaseSegments fs caseid positiveSegments negativeSegments)))"

text \<open>A call of \<open>extract_segments\<close>: its locals are fresh, so \<open>j\<close> is unassigned.\<close>

definition extract_segments ::
  "(int \<Rightarrow> track) \<Rightarrow> int list \<Rightarrow> store \<Rightarrow> (store \<times> error option) option" where
  "extract_segments tracks cases_of_interest_idx fs =
     extract_cases tracks cases_of_interest_idx None fs"

section \<open>Synthetic tracks\<close>

text \<open>
  A piecewise-constant waveform: for each pair \<open>(n, v)\<close>, \<open>n\<close> seconds of samples of
  pressure \<open>v\<close>, at the arterial sample rate. \<open>window_total\<close> is the sum of the
  pressures, per second, and the number of seconds that the window of seconds
  \<open>[a, b)\<close> holds.
\<close>

fun piecewise :: "(int \<times> real) list \<Rightarrow> track" where
  "piecewise [] = []"
| "piecewise ((n, v) # ps) = replicate (nat (n * ABP_ECG_SRATE_HZ)) (Some v) @ piecewise ps"

fun window_total :: "(int \<times> real) list \<Rightarrow> int \<Rightarrow> int \<Rightarrow> real \<times> int" where
  "window_total [] a b = (0, 0)"
| "window_total ((n, v) # ps) a b =
     (let k = max 0 (min b n - a);
          r = window_total ps (max 0 (a - n)) (max 0 (b - n))
      in (of_int k * v + fst r, k + snd r))"

text \<open>
  Scenario 1 of the specification: 3600 seconds, 70 mmHg over \<open>[0, 300)\<close>, 50 mmHg over
  \<open>[300, 420)\<close>, 70 mmHg over \<open>[420, 3600)\<close>.
\<close>

definition scenario1 :: track where
  "scenario1 = piecewise [(300, 70), (120, 50), (3180, 70)]"

text \<open>
  Three more tracks. One never recovers: 80 mmHg for 300 seconds, then 50 mmHg until its
  end at 400 seconds. One is steady: 80 mmHg for 1802 seconds. The last is scenario 1 with
  the high pressure raised to 80 mmHg, so that 30-minute windows reach the clean
  threshold.
\<close>

definition unrecovered_track :: track where
  "unrecovered_track = piecewise [(300, 80), (100, 50)]"

definition steady_track :: track where
  "steady_track = piecewise [(1802, 80)]"

definition recheck_track :: track where
  "recheck_track = piecewise [(300, 80), (120, 50), (3180, 80)]"

text \<open>
  A track at 100 mmHg with two dips to 40 mmHg: one over seconds \<open>[1700, 1776)\<close>, whose
  event ends at second 1800, and one from second 3600 to the end of the track at 3700,
  which never recovers.
\<close>

definition dip_track :: track where
  "dip_track = piecewise [(1700, 100), (76, 40), (1824, 100), (100, 40)]"

text \<open>
  A track at 100 mmHg with two dips to 40 mmHg of 36 seconds each, over seconds
  \<open>[1024, 1060)\<close> and \<open>[1144, 1180)\<close>; it ends at 1300 seconds.
\<close>

definition two_event_track :: track where
  "two_event_track = piecewise [(1024, 100), (36, 40), (84, 100), (36, 40), (120, 100)]"

text \<open>
  The reference for the overlap test, in the specification's words: two half-open
  intervals of seconds intersect, that is, they share a second.
\<close>

definition intersects :: "interval \<Rightarrow> interval \<Rightarrow> bool" where
  "intersects a b = (max (fst a) (fst b) < min (snd a) (snd b))"

text \<open>
  What the second pass keeps true of the clean windows it has recorded: each ends before
  the next starts, each is 1800 seconds long and passes the three-case test against
  every event.
\<close>

definition windows_ok :: "interval list \<Rightarrow> interval list \<Rightarrow> bool" where
  "windows_ok evs cl =
     (sorted_wrt (\<lambda>a b. snd a < fst b) cl
      \<and> list_all (\<lambda>w. snd w = fst w + 1800 \<and> list_all (\<lambda>ev. \<not> overlaps w ev) evs) cl)"

section \<open>The first pass: order and length of the events\<close>

lemma mean_lt_not_ge: "mean_lt m t \<Longrightarrow> \<not> mean_ge m t"
  by (cases m) (simp_all add: mean_lt_def mean_ge_def)

lemma forward_search_end_gt:
  assumes "forward_search abp tls j jv = (Some e, j')"
    and "\<not> mean_ge (window_mean abp (j - 60) j) 65"
  shows "j \<le> e"
proof (cases "j < tls")
  case True
  with assms have "forward_search abp tls (j + 1) (Some j) = (Some e, j')" by simp
  from forward_search_end_ge [OF this] show ?thesis by simp
next
  case False
  with assms show ?thesis by simp
qed

lemma first_pass_loop_inv:
  assumes "first_pass_loop abp tls i started tsi evs jv = (evs', tsi', jv')"
    and "sorted_wrt (\<lambda>a b. snd a < fst b) evs"
    and "list_all (\<lambda>ev. fst ev + 60 \<le> snd ev) evs"
    and "list_all (\<lambda>ev. snd ev < i) evs"
  shows "sorted_wrt (\<lambda>a b. snd a < fst b) evs' \<and> list_all (\<lambda>ev. fst ev + 60 \<le> snd ev) evs'"
  using assms
proof (induction abp tls i started tsi evs jv rule: first_pass_loop.induct)
  case (1 abp tls i started tsi evs jv)
  note step = "1.prems"(1) [unfolded first_pass_loop.simps [of abp tls i started tsi evs jv]]
  have up: "list_all (\<lambda>ev. snd ev < i + 1) evs"
    using "1.prems"(4) by (auto simp: list_all_iff)
  show ?case
  proof (cases "i < tls - 60")
    case False
    with step "1.prems" show ?thesis by simp
  next
    case inloop: True
    show ?thesis
    proof (cases started)
      case False
      show ?thesis
      proof (cases "mean_ge (window_mean abp i (i + 60)) 65")
        case True
        with inloop False step have "first_pass_loop abp tls (i + 1) True (Some i) evs jv = (evs', tsi', jv')" by simp
        from "1.IH"(1) [OF inloop _ True this "1.prems"(2,3) up] False show ?thesis by simp
      next
        case nb: False
        with inloop False step have "first_pass_loop abp tls (i + 1) False tsi evs jv = (evs', tsi', jv')" by simp
        from "1.IH"(2) [OF inloop _ nb this "1.prems"(2,3) up] False show ?thesis by simp
      qed
    next
      case st: True
      show ?thesis
      proof (cases "mean_lt (window_mean abp i (i + 60)) 65")
        case False
        with inloop st step have "first_pass_loop abp tls (i + 1) True tsi evs jv = (evs', tsi', jv')" by simp
        from "1.IH"(4) [OF inloop _ False this "1.prems"(2,3) up] st show ?thesis by simp
      next
        case low: True
        obtain r j2 where fs: "forward_search abp tls (i + 60) jv = (r, j2)" by (cases "forward_search abp tls (i + 60) jv")
        show ?thesis
        proof (cases r)
          case None
          with inloop st low step fs have "evs' = evs" by simp
          with "1.prems" show ?thesis by simp
        next
          case (Some e)
          with inloop st low step fs
          have rec: "first_pass_loop abp tls (e + 1) True tsi (evs @ [(i, e)]) j2 = (evs', tsi', jv')" by simp
          from forward_search_end_gt [OF fs [unfolded Some]] low have ge: "i + 60 \<le> e"
            by (simp add: mean_lt_not_ge)
          have a: "sorted_wrt (\<lambda>a b. snd a < fst b) (evs @ [(i, e)])"
            using "1.prems"(2,4) by (auto simp: sorted_wrt_append list_all_iff)
          have b: "list_all (\<lambda>ev. fst ev + 60 \<le> snd ev) (evs @ [(i, e)])"
            using "1.prems"(3) ge by simp
          have c: "list_all (\<lambda>ev. snd ev < e + 1) (evs @ [(i, e)])"
            using "1.prems"(4) ge by (auto simp: list_all_iff)
          from "1.IH"(3) [OF inloop _ low fs [symmetric] Some rec a b c] st show ?thesis by simp
        qed
      qed
    qed
  qed
qed

text \<open>
  C1. The IOH events of a case, as the first pass appends them, are in strictly increasing
  order, each event ends before the next one starts (so no two overlap, under the code's
  own three-case test in either argument order as well), and every event \<open>(start, end)\<close>
  has \<open>end > start\<close> and \<open>end - start \<ge> 60\<close>. The bound 60 holds because the first
  window of the recovery search is the very window whose mean was below 65.
\<close>

theorem ioh_events_increasing_disjoint_min_length:
  "sorted_wrt (\<lambda>a b. fst a < fst b \<and> snd a < fst b \<and> \<not> overlaps a b \<and> \<not> overlaps b a)
     (fst (first_pass abp jv))
   \<and> list_all (\<lambda>ev. fst ev < snd ev \<and> 60 \<le> snd ev - fst ev) (fst (first_pass abp jv))"
proof -
  obtain evs tsi j' where r: "first_pass abp jv = (evs, tsi, j')"
    by (cases "first_pass abp jv")
  from first_pass_loop_inv [OF r [unfolded first_pass_def]]
  have s: "sorted_wrt (\<lambda>a b. snd a < fst b) evs"
    and l: "list_all (\<lambda>ev. fst ev + 60 \<le> snd ev) evs" by simp_all
  have "sorted_wrt (\<lambda>a b. fst a < fst b \<and> snd a < fst b \<and> \<not> overlaps a b \<and> \<not> overlaps b a) evs"
  proof (rule sorted_wrt_mono_rel [OF _ s])
    fix a b assume "a \<in> set evs" "b \<in> set evs" "snd a < fst b"
    with l have "fst a + 60 \<le> snd a" "fst b + 60 \<le> snd b" "snd a < fst b"
      by (auto simp: list_all_iff)
    then show "fst a < fst b \<and> snd a < fst b \<and> \<not> overlaps a b \<and> \<not> overlaps b a"
      by (auto simp: overlaps_def)
  qed
  moreover from l have "list_all (\<lambda>ev. fst ev < snd ev \<and> 60 \<le> snd ev - fst ev) evs"
    by (auto simp: list_all_iff)
  ultimately show ?thesis by (simp add: r)
qed

section \<open>Window means of piecewise-constant tracks\<close>

lemma slice_nonneg:
  "0 \<le> a \<Longrightarrow> 0 \<le> b \<Longrightarrow> slice xs a b = take (nat b - nat a) (drop (nat a) xs)"
  by (auto simp: slice_def slice_bound_def Let_def min_def)

lemma take_drop_append:
  "take (b - a) (drop a (xs @ ys)) =
     take (b - a) (drop a xs) @ take ((b - length xs) - (a - length xs)) (drop (a - length xs) ys)"
  by (cases "a \<le> length xs") (auto simp: )

lemma non_nan_append: "non_nan (xs @ ys) = non_nan xs @ non_nan ys"
  by (induction xs rule: non_nan.induct) simp_all

lemma non_nan_replicate: "non_nan (replicate n (Some v)) = replicate n v"
  by (induction n) simp_all

lemma sum_list_replicate_real: "sum_list (replicate n (v::real)) = real n * v"
  by (induction n) (simp_all add: algebra_simps)

lemma nanmean_alt:
  "nanmean xs = (if length (non_nan xs) = 0 then None
                 else Some (sum_list (non_nan xs) / real (length (non_nan xs))))"
  by (cases "non_nan xs") (simp_all add: nanmean_def)

lemma length_piecewise:
  "list_all (\<lambda>p. 0 \<le> fst p) ps \<Longrightarrow> int (length (piecewise ps)) = sum_list (map fst ps) * 500"
  by (induction ps) (auto simp: ABP_ECG_SRATE_HZ_def algebra_simps)

lemma window_piecewise:
  assumes "list_all (\<lambda>p. 0 \<le> fst p) ps" "0 \<le> a" "a \<le> b"
  shows "sum_list (non_nan (take (nat (b * 500) - nat (a * 500)) (drop (nat (a * 500)) (piecewise ps))))
           = 500 * fst (window_total ps a b)
       \<and> int (length (non_nan (take (nat (b * 500) - nat (a * 500)) (drop (nat (a * 500)) (piecewise ps)))))
           = 500 * snd (window_total ps a b)"
  using assms
proof (induction ps arbitrary: a b)
  case Nil
  then show ?case by simp
next
  case (Cons p ps)
  obtain n v where p: "p = (n, v)" by (cases p)
  from Cons.prems p have n: "0 \<le> n" and rest: "list_all (\<lambda>p. 0 \<le> fst p) ps" by simp_all
  let ?a' = "max 0 (a - n)" and ?b' = "max 0 (b - n)"
  have ab': "0 \<le> ?a'" "?a' \<le> ?b'" using Cons.prems by auto
  note IH = Cons.IH [OF rest ab']
  have len: "length (replicate (nat (n * 500)) (Some v)) = nat (n * 500)" by simp
  have sh1: "nat (a * 500) - nat (n * 500) = nat (?a' * 500)"
    using Cons.prems n by (cases "n \<le> a") (simp_all add: max_def nat_diff_distrib' left_diff_distrib)
  have sh2: "nat (b * 500) - nat (n * 500) = nat (?b' * 500)"
    using Cons.prems n by (cases "n \<le> b") (simp_all add: max_def nat_diff_distrib' left_diff_distrib)
  have cnt: "min (nat (b * 500) - nat (a * 500)) (nat (n * 500) - nat (a * 500))
      = nat (max 0 (min b n - a) * 500)"
    using Cons.prems n unfolding min_def max_def
    by (simp add: nat_diff_distrib' [symmetric] nat_le_eq_zle left_diff_distrib)
  have hd: "take (nat (b * 500) - nat (a * 500)) (drop (nat (a * 500)) (replicate (nat (n * 500)) (Some v)))
      = replicate (nat (max 0 (min b n - a) * 500)) (Some v)"
    by (simp add: cnt)
  have split: "take (nat (b * 500) - nat (a * 500)) (drop (nat (a * 500)) (piecewise (p # ps)))
     = replicate (nat (max 0 (min b n - a) * 500)) (Some v)
       @ take (nat (?b' * 500) - nat (?a' * 500)) (drop (nat (?a' * 500)) (piecewise ps))"
    unfolding p piecewise.simps ABP_ECG_SRATE_HZ_def take_drop_append len sh1 sh2 hd ..
  have k: "0 \<le> max 0 (min b n - a)" by simp
  have rk: "real (nat (max 0 (min b n - a) * 500)) = 500 * of_int (max 0 (min b n - a))"
    using k by (simp add: of_nat_nat)
  have wt: "window_total (p # ps) a b =
      (of_int (max 0 (min b n - a)) * v + fst (window_total ps ?a' ?b'),
       max 0 (min b n - a) + snd (window_total ps ?a' ?b'))"
    by (simp add: p Let_def)
  show ?case
    unfolding split non_nan_append non_nan_replicate wt fst_conv snd_conv
      sum_list_append length_append sum_list_replicate_real length_replicate rk
    using IH k by (simp add: algebra_simps nat_add_distrib)
qed

lemma window_mean_piecewise:
  assumes "list_all (\<lambda>p. 0 \<le> fst p) ps" "0 \<le> a" "a \<le> b"
  shows "window_mean (piecewise ps) a b =
     (if snd (window_total ps a b) = 0 then None
      else Some (fst (window_total ps a b) / of_int (snd (window_total ps a b))))"
proof -
  let ?w = "take (nat (b * 500) - nat (a * 500)) (drop (nat (a * 500)) (piecewise ps))"
  have w: "slice (piecewise ps) (a * ABP_ECG_SRATE_HZ) (b * ABP_ECG_SRATE_HZ) = ?w"
    using assms by (simp add: slice_nonneg ABP_ECG_SRATE_HZ_def)
  from window_piecewise [OF assms]
  have s: "sum_list (non_nan ?w) = 500 * fst (window_total ps a b)"
    and l: "int (length (non_nan ?w)) = 500 * snd (window_total ps a b)" by simp_all
  have "real (length (non_nan ?w)) = of_int (int (length (non_nan ?w)))" by simp
  also have "\<dots> = 500 * of_int (snd (window_total ps a b))" unfolding l by simp
  finally have l': "real (length (non_nan ?w)) = 500 * of_int (snd (window_total ps a b))" .
  from l have z: "length (non_nan ?w) = 0 \<longleftrightarrow> snd (window_total ps a b) = 0" by auto
  show ?thesis
    unfolding window_mean_def w nanmean_alt z s l' by simp
qed

section \<open>Skipping over the seconds where nothing happens\<close>

lemma first_pass_loop_skip:
  assumes "i \<le> m" "m \<le> tls - 60"
    and "\<forall>k. i \<le> k \<and> k < m \<longrightarrow> \<not> mean_lt (window_mean abp k (k + 60)) 65"
  shows "first_pass_loop abp tls i True tsi evs jv = first_pass_loop abp tls m True tsi evs jv"
  using assms
proof (induction "nat (m - i)" arbitrary: i)
  case 0
  then have "i = m" by simp
  then show ?case by simp
next
  case (Suc n)
  then have lt: "i < m" and n: "n = nat (m - (i + 1))" by auto
  from lt Suc.prems have a: "i < tls - 60" and b: "\<not> mean_lt (window_mean abp i (i + 60)) 65" by auto
  have "first_pass_loop abp tls i True tsi evs jv = first_pass_loop abp tls (i + 1) True tsi evs jv"
    using a b by simp
  also have "\<dots> = first_pass_loop abp tls m True tsi evs jv"
    using Suc.hyps(1) [OF n] lt Suc.prems by simp
  finally show ?case .
qed

lemma forward_search_skip:
  assumes "j < m" "m \<le> tls"
    and "\<forall>k. j \<le> k \<and> k < m \<longrightarrow> \<not> mean_ge (window_mean abp (k - 60) k) 65"
  shows "forward_search abp tls j jv = forward_search abp tls m (Some (m - 1))"
  using assms
proof (induction "nat (m - j)" arbitrary: j jv)
  case 0
  then show ?case by simp
next
  case (Suc n)
  from Suc.prems have a: "j < tls" and b: "\<not> mean_ge (window_mean abp (j - 60) j) 65" by auto
  have step: "forward_search abp tls j jv = forward_search abp tls (j + 1) (Some j)"
    using a b by simp
  show ?case
  proof (cases "j + 1 = m")
    case True
    with step show ?thesis by auto
  next
    case False
    with Suc.prems have lt: "j + 1 < m" by simp
    from Suc.hyps(2) have n: "n = nat (m - (j + 1))" by simp
    from Suc.hyps(1) [OF n lt Suc.prems(2)] Suc.prems(3) step show ?thesis by simp
  qed
qed

section \<open>Scenario 1\<close>

lemma scenario1_length: "track_length_seconds scenario1 = 3600"
  by (simp add: track_length_seconds_def scenario1_def ABP_ECG_SRATE_HZ_def)

lemma scenario1_window_mean:
  assumes "0 \<le> a" "a \<le> b"
  shows "window_mean scenario1 a b =
     (if snd (window_total [(300, 70), (120, 50), (3180, 70)] a b) = 0 then None
      else Some (fst (window_total [(300, 70), (120, 50), (3180, 70)] a b)
                  / of_int (snd (window_total [(300, 70), (120, 50), (3180, 70)] a b))))"
  unfolding scenario1_def using assms by (intro window_mean_piecewise) simp_all

lemma scenario1_high_before_256: "0 \<le> k \<Longrightarrow> k < 256 \<Longrightarrow> \<not> mean_lt (window_mean scenario1 k (k + 60)) 65"
  by (simp add: scenario1_window_mean mean_lt_def Let_def min_def max_def field_simps)

lemma scenario1_low_at_256: "mean_lt (window_mean scenario1 256 316) 65"
  using scenario1_window_mean [of 256 316] by (simp add: mean_lt_def Let_def)

lemma scenario1_no_recovery_before_465: "316 \<le> j \<Longrightarrow> j < 465 \<Longrightarrow> \<not> mean_ge (window_mean scenario1 (j - 60) j) 65"
  using scenario1_window_mean [of "j - 60" j] by (simp add: mean_ge_def Let_def min_def max_def field_simps)

lemma scenario1_recovery_at_465: "mean_ge (window_mean scenario1 405 465) 65"
  using scenario1_window_mean [of 405 465] by (simp add: mean_ge_def Let_def)

lemma scenario1_high_from_465: "465 \<le> k \<Longrightarrow> k < 3540 \<Longrightarrow> \<not> mean_lt (window_mean scenario1 k (k + 60)) 65"
  by (simp add: scenario1_window_mean mean_lt_def Let_def min_def max_def field_simps)

lemma scenario1_live_at_0: "mean_ge (window_mean scenario1 0 60) 65"
  using scenario1_window_mean [of 0 60] by (simp add: mean_ge_def Let_def)

lemma scenario1_search: "forward_search scenario1 3600 316 jv = (Some 464, Some 465)"
proof -
  have "forward_search scenario1 3600 316 jv = forward_search scenario1 3600 465 (Some (465 - 1))"
    by (rule forward_search_skip) (simp_all add: scenario1_no_recovery_before_465)
  also have "\<dots> = (Some 464, Some 465)"
    using scenario1_recovery_at_465 by simp
  finally show ?thesis .
qed

lemma scenario1_first_pass_value: "first_pass scenario1 jv = ([(256, 464)], Some 0, Some 465)"
proof -
  have "first_pass scenario1 jv = first_pass_loop scenario1 3600 0 False None [] jv"
    by (simp add: first_pass_def scenario1_length)
  also have "\<dots> = first_pass_loop scenario1 3600 1 True (Some 0) [] jv"
    using scenario1_live_at_0 by simp
  also have "\<dots> = first_pass_loop scenario1 3600 256 True (Some 0) [] jv"
    by (rule first_pass_loop_skip) (simp_all add: scenario1_high_before_256)
  also have "\<dots> = first_pass_loop scenario1 3600 465 True (Some 0) [(256, 464)] (Some 465)"
    using scenario1_low_at_256 scenario1_search [of jv] by simp
  also have "\<dots> = first_pass_loop scenario1 3600 3540 True (Some 0) [(256, 464)] (Some 465)"
    by (rule first_pass_loop_skip) (simp_all add: scenario1_high_from_465)
  also have "\<dots> = ([(256, 464)], Some 0, Some 465)"
    by simp
  finally show ?thesis .
qed

text \<open>The one event of scenario 1, as an instance of C1.\<close>

theorem ioh_events_scenario1_witness:
  "fst (first_pass scenario1 None) = [(256, 464)]
   \<and> sorted_wrt (\<lambda>a b. fst a < fst b \<and> snd a < fst b \<and> \<not> overlaps a b \<and> \<not> overlaps b a)
        [(256, 464)]
   \<and> list_all (\<lambda>ev. fst ev < snd ev \<and> 60 \<le> snd ev - fst ev) [(256 :: int, 464 :: int)]"
  using ioh_events_increasing_disjoint_min_length [of scenario1 None]
  by (simp add: scenario1_first_pass_value)

text \<open>
  C2, as amended. On the track of scenario 1 (every sample 70 mmHg over seconds
  \<open>[0, 300)\<close>, 50 mmHg over \<open>[300, 420)\<close>, 70 mmHg over \<open>[420, 3600)\<close>) the first pass
  yields \<open>trackStartIndex = 0\<close> and exactly one IOH event, \<open>(256, 464)\<close>: the event starts
  at the first second whose forward 60-second window has a mean below 65 (16 of its
  seconds at 50 mmHg) and ends one second before the first \<open>j\<close> whose backward
  60-second window has a mean of at least 65 (at most 15 seconds at 50 mmHg).
\<close>

theorem scenario1_first_pass:
  "first_pass scenario1 jv = ([(256, 464)], Some 0, Some 465)"
  by (rule scenario1_first_pass_value)

text \<open>
  C2, as the specification states it, fails: the one event of scenario 1 is not
  \<open>(300, 419)\<close>.
\<close>

theorem scenario1_event_is_not_300_419:
  "fst (first_pass scenario1 None) \<noteq> [(300, 419)]"
  by (simp add: scenario1_first_pass_value)

section \<open>The second pass returns, and its windows are ordered\<close>

lemma latest_overlap_None:
  "latest_overlap s e evs acc = None \<longleftrightarrow> acc = None \<and> list_all (\<lambda>ev. \<not> overlaps (s, e) ev) evs"
  by (induction evs arbitrary: acc) auto

lemma latest_overlap_Some:
  "latest_overlap s e evs acc = Some le \<Longrightarrow>
     acc = Some le \<or> (\<exists>ev \<in> set evs. overlaps (s, e) ev \<and> le = snd ev)"
  by (induction evs arbitrary: acc) (auto split: if_splits)

lemma latest_overlap_ge:
  assumes "list_all (\<lambda>ev. fst ev < snd ev) evs" "s \<le> e"
    and "latest_overlap s e evs None = Some le"
  shows "s \<le> le"
proof -
  from latest_overlap_Some [OF assms(3)] obtain ev
    where ev: "ev \<in> set evs" "overlaps (s, e) ev" "le = snd ev" by auto
  with assms(1) have "fst ev < snd ev" by (auto simp: list_all_iff)
  with ev assms(2) show ?thesis by (auto simp: overlaps_def)
qed

lemma windows_ok_snoc:
  assumes "windows_ok evs cl" "list_all (\<lambda>w. snd w < i) cl"
    and "list_all (\<lambda>ev. \<not> overlaps (i, i + 1800) ev) evs"
  shows "windows_ok evs (cl @ [(i, i + 1800)])"
  using assms by (auto simp: windows_ok_def sorted_wrt_append list_all_iff)

lemma list_all_snd_less_mono:
  "list_all (\<lambda>w. snd w < (i::int)) cl \<Longrightarrow> i \<le> i' \<Longrightarrow> list_all (\<lambda>w. snd w < i') cl"
  by (auto simp: list_all_iff)

lemma second_pass_loop_total_inv:
  assumes "list_all (\<lambda>ev. fst ev < snd ev) evs"
    and "windows_ok evs cl" and "list_all (\<lambda>w. snd w < i) cl"
  shows "\<exists>r. second_pass_loop abp tls evs jv i cl = Some r
             \<and> (\<forall>cl'. r = Inr cl' \<longrightarrow> windows_ok evs cl')"
  using assms(2,3)
proof (induction "nat (tls - 1800 - i)" arbitrary: i cl rule: less_induct)
  case less
  note simps = second_pass_loop.simps [of abp tls evs jv i cl]
  show ?case
  proof (cases "i < tls - 1800")
    case False
    with simps less.prems show ?thesis by simp
  next
    case inloop: True
    have step: "\<exists>r. second_pass_loop abp tls evs jv i' cl' = Some r
             \<and> (\<forall>c. r = Inr c \<longrightarrow> windows_ok evs c)"
      if "i < i'" "windows_ok evs cl'" "list_all (\<lambda>w. snd w < i') cl'" for i' cl'
      using less.hyps [of i' cl'] that inloop by simp
    show ?thesis
    proof (cases "latest_overlap i (i + 1800) evs None")
      case (Some le)
      from latest_overlap_ge [OF assms(1) _ Some] have "i < le + 1" by simp
      from step [OF this less.prems(1) list_all_snd_less_mono [OF less.prems(2)]] this
      show ?thesis using simps inloop Some by simp
    next
      case None
      then have free: "list_all (\<lambda>ev. \<not> overlaps (i, i + 1800) ev) evs"
        by (simp add: latest_overlap_None)
      have ten: "\<exists>r. second_pass_loop abp tls evs jv (i + 10) cl = Some r
             \<and> (\<forall>c. r = Inr c \<longrightarrow> windows_ok evs c)"
        by (rule step [OF _ less.prems(1) list_all_snd_less_mono [OF less.prems(2)]]) simp_all
      have rec: "\<exists>r. second_pass_loop abp tls evs jv (i + 1800 + 1) (cl @ [(i, i + 1800)]) = Some r
             \<and> (\<forall>c. r = Inr c \<longrightarrow> windows_ok evs c)"
      proof (rule step [OF _ windows_ok_snoc [OF less.prems free]])
        show "i < i + 1800 + 1" by simp
        show "list_all (\<lambda>w. snd w < i + 1800 + 1) (cl @ [(i, i + 1800)])"
          using list_all_snd_less_mono [OF less.prems(2), of "i + 1800 + 1"] by simp
      qed
      show ?thesis
      proof (cases "mean_ge (window_mean abp i (i + 1800)) 75")
        case False
        with simps inloop None ten show ?thesis by simp
      next
        case high: True
        show ?thesis
        proof (cases jv)
          case None
          with simps inloop \<open>latest_overlap i (i + 1800) evs None = None\<close> high show ?thesis by simp
        next
          case (Some j)
          show ?thesis
          proof (cases "latest_overlap (j - 1800) j evs None = None")
            case True
            with simps inloop \<open>latest_overlap i (i + 1800) evs None = None\<close> high Some rec
            show ?thesis by simp
          next
            case False
            with simps inloop \<open>latest_overlap i (i + 1800) evs None = None\<close> high Some ten
            show ?thesis by simp
          qed
        qed
      qed
    qed
  qed
qed

section \<open>Segments\<close>

lemma set_positive_candidates:
  "(s, e, w) \<in> set (positive_candidates event previousEvent tsi ws) \<longleftrightarrow>
     w \<in> set ws \<and> s = fst event - w * 60 \<and> e = s + 60 \<and> 0 \<le> s \<and> tsi \<le> s
     \<and> (case previousEvent of None \<Rightarrow> True | Some p \<Rightarrow> \<not> overlaps (s, e) p)"
  by (induction ws) (auto simp: Let_def split: option.splits)

lemma third_pass_member:
  "(s, e, w) \<in> set (third_pass iohEvents tsi) \<longleftrightarrow>
     (\<exists>k < length iohEvents.
        w \<in> set ALL_PREDICTION_WINDOWS \<and> s = fst (iohEvents ! k) - w * 60 \<and> e = s + 60
        \<and> 0 \<le> s \<and> tsi \<le> s
        \<and> (0 < k \<longrightarrow> \<not> overlaps (s, e) (iohEvents ! (k - 1))))"
proof -
  have "(s, e, w) \<in> set (third_pass iohEvents tsi) \<longleftrightarrow>
      (\<exists>k. k < length iohEvents \<and> (s, e, w) \<in> set (positive_candidates (iohEvents ! k)
              (if 0 < k then Some (iohEvents ! (k - 1)) else None) tsi ALL_PREDICTION_WINDOWS))"
    by (auto simp: third_pass_def)
  also have "\<dots> \<longleftrightarrow> (\<exists>k. k < length iohEvents \<and>
        w \<in> set ALL_PREDICTION_WINDOWS \<and> s = fst (iohEvents ! k) - w * 60 \<and> e = s + 60
        \<and> 0 \<le> s \<and> tsi \<le> s
        \<and> (0 < k \<longrightarrow> \<not> overlaps (s, e) (iohEvents ! (k - 1))))"
  proof (rule iff_exI)
    fix k
    show "k < length iohEvents \<and> (s, e, w) \<in> set (positive_candidates (iohEvents ! k)
              (if 0 < k then Some (iohEvents ! (k - 1)) else None) tsi ALL_PREDICTION_WINDOWS)
       \<longleftrightarrow> k < length iohEvents \<and>
        w \<in> set ALL_PREDICTION_WINDOWS \<and> s = fst (iohEvents ! k) - w * 60 \<and> e = s + 60
        \<and> 0 \<le> s \<and> tsi \<le> s
        \<and> (0 < k \<longrightarrow> \<not> overlaps (s, e) (iohEvents ! (k - 1)))"
      unfolding set_positive_candidates by (cases "0 < k") auto
  qed
  finally show ?thesis by simp
qed

text \<open>
  Scenario 4 of the specification and two events in a row: the candidate 15 minutes
  before an event at second 1000 is kept when the track is live from second 0 and
  rejected when it is live from second 500; a candidate that starts inside the previous
  event is rejected.
\<close>

lemma third_pass_scenario4:
  "(100, 160, 15) \<in> set (third_pass [(1000, 1100)] 0)
   \<and> (100, 160, 15) \<notin> set (third_pass [(1000, 1100)] 500)
   \<and> (1820, 1880, 3) \<in> set (third_pass [(1000, 1100), (2000, 2100)] 0)
   \<and> (1100, 1160, 15) \<notin> set (third_pass [(1000, 1500), (2000, 2100)] 0)"
  unfolding third_pass_member
  by (simp add: ALL_PREDICTION_WINDOWS_def overlaps_def Ex_less_Suc)

lemma fourth_pass_concat:
  "fourth_pass cleanEvents =
     concat (map (\<lambda>w. [(fst w + 600, fst w + 600 + 60), (fst w + 900, fst w + 900 + 60),
                        (fst w + 1200, fst w + 1200 + 60)]) cleanEvents)"
  by (induction cleanEvents) (simp_all add: Let_def)

lemma third_pass_length_60: "list_all (\<lambda>(s, e, w). e - s = 60) (third_pass iohEvents tsi)"
  unfolding list_all_iff using third_pass_member by auto

text \<open>
  C7. The fourth pass emits, for every clean window and in the order of the windows,
  exactly three negative segments, starting 600, 900 and 1200 seconds after the start of
  the window, in that order; every emitted segment, negative or positive, has
  \<open>end - start = 60\<close>.
\<close>

theorem negative_segments_three_per_window:
  "fourth_pass cleanEvents =
     concat (map (\<lambda>w. [(fst w + 600, fst w + 600 + 60), (fst w + 900, fst w + 900 + 60),
                        (fst w + 1200, fst w + 1200 + 60)]) cleanEvents)
   \<and> length (fourth_pass cleanEvents) = 3 * length cleanEvents
   \<and> list_all (\<lambda>(s, e). e - s = 60) (fourth_pass cleanEvents)
   \<and> list_all (\<lambda>(s, e, w). e - s = 60) (third_pass iohEvents tsi)"
proof -
  have "length (fourth_pass cleanEvents) = 3 * length cleanEvents"
    by (induction cleanEvents) (simp_all add: Let_def)
  moreover have "list_all (\<lambda>(s, e). e - s = 60) (fourth_pass cleanEvents)"
    by (induction cleanEvents) (simp_all add: Let_def)
  ultimately show ?thesis using fourth_pass_concat third_pass_length_60 by blast
qed

section \<open>An event that never recovers; an unassigned \<open>j\<close>\<close>

lemma forward_search_binds:
  "forward_search abp tls j jv = (r, j') \<Longrightarrow> j < tls \<Longrightarrow> j' \<noteq> None"
proof (induction abp tls j jv arbitrary: rule: forward_search.induct)
  case (1 abp tls j jv)
  show ?case
  proof (cases "mean_ge (window_mean abp (j - 60) j) 65")
    case True
    with "1.prems" show ?thesis by auto
  next
    case False
    with "1.prems" have rec: "forward_search abp tls (j + 1) (Some j) = (r, j')" by simp
    show ?thesis
    proof (cases "j + 1 < tls")
      case True
      from "1.IH" [OF "1.prems"(2) False rec True] show ?thesis .
    next
      case False
      with rec show ?thesis by auto
    qed
  qed
qed

lemma forward_search_None:
  assumes "\<forall>k. j \<le> k \<and> k < tls \<longrightarrow> \<not> mean_ge (window_mean abp (k - 60) k) 65" "j < tls"
  shows "forward_search abp tls j jv = (None, Some (tls - 1))"
  using assms
proof (induction abp tls j jv rule: forward_search.induct)
  case (1 abp tls j jv)
  from "1.prems" have nr: "\<not> mean_ge (window_mean abp (j - 60) j) 65" by simp
  show ?case
  proof (cases "j + 1 < tls")
    case True
    from "1.IH" [OF "1.prems"(2) nr _ True] "1.prems" nr show ?thesis by simp
  next
    case False
    with "1.prems"(2) have "j = tls - 1" by simp
    with nr "1.prems"(2) show ?thesis by simp
  qed
qed

text \<open>
  C8. The scan is live, the window at the cursor \<open>i\<close> has a mean below 65, and no second
  \<open>j\<close> from \<open>i + 60\<close> to the end of the track has a backward 60-second window of mean at
  least 65. Then the loop returns at once with the event list as it stood: the event
  that started at \<open>i\<close> is not appended and no later event is recorded. (\<open>j\<close> is left at the
  last second of the track.)
\<close>

theorem unrecovered_event_is_dropped:
  assumes "i < tls - 60" "mean_lt (window_mean abp i (i + 60)) 65"
    and "\<forall>j. i + 60 \<le> j \<and> j < tls \<longrightarrow> \<not> mean_ge (window_mean abp (j - 60) j) 65"
  shows "first_pass_loop abp tls i True tsi evs jv = (evs, tsi, Some (tls - 1))"
proof -
  from assms(1) have "i + 60 < tls" by simp
  from forward_search_None [OF assms(3) this]
  have "forward_search abp tls (i + 60) jv = (None, Some (tls - 1))" .
  with assms(1,2) show ?thesis by simp
qed

lemma first_pass_loop_unbound:
  assumes "first_pass_loop abp tls i started tsi evs jv = (evs', tsi', None)"
  shows "evs' = evs \<and> jv = None"
  using assms
proof (induction abp tls i started tsi evs jv rule: first_pass_loop.induct)
  case (1 abp tls i started tsi evs jv)
  note step = "1.prems" [unfolded first_pass_loop.simps [of abp tls i started tsi evs jv]]
  show ?case
  proof (cases "i < tls - 60")
    case False
    with step show ?thesis by simp
  next
    case inloop: True
    show ?thesis
    proof (cases started)
      case False
      show ?thesis
      proof (cases "mean_ge (window_mean abp i (i + 60)) 65")
        case True
        with inloop False step "1.IH"(1) show ?thesis by simp
      next
        case nb: False
        with inloop False step "1.IH"(2) show ?thesis by simp
      qed
    next
      case st: True
      show ?thesis
      proof (cases "mean_lt (window_mean abp i (i + 60)) 65")
        case False
        with inloop st step "1.IH"(4) show ?thesis by simp
      next
        case low: True
        obtain r j2 where fs: "forward_search abp tls (i + 60) jv = (r, j2)"
          by (cases "forward_search abp tls (i + 60) jv")
        from forward_search_binds [OF fs] inloop have b: "j2 \<noteq> None" by simp
        show ?thesis
        proof (cases r)
          case None
          with inloop st low step fs b show ?thesis by simp
        next
          case (Some e)
          with inloop st low step fs
          have "first_pass_loop abp tls (e + 1) True tsi (evs @ [(i, e)]) j2 = (evs', tsi', None)"
            by simp
          from "1.IH"(3) [OF inloop _ low fs [symmetric] Some this] st b show ?thesis by simp
        qed
      qed
    qed
  qed
qed

lemma second_pass_loop_unbound:
  assumes "0 \<le> k" "i + 10 * k < tls - 1800"
    and "mean_ge (window_mean abp (i + 10 * k) (i + 10 * k + 1800)) 75"
  shows "second_pass_loop abp tls [] None i cl = Some (Inl UnboundLocalError)"
  using assms
proof (induction "nat k" arbitrary: i k)
  case 0
  then have "k = 0" by simp
  with 0 show ?case by (subst second_pass_loop.simps) simp
next
  case (Suc n)
  from Suc.prems have inloop: "i < tls - 1800" by simp
  show ?case
  proof (cases "mean_ge (window_mean abp i (i + 1800)) 75")
    case True
    with inloop show ?thesis by (subst second_pass_loop.simps) simp
  next
    case False
    from Suc.hyps(2) have n: "n = nat (k - 1)" and k: "0 \<le> k - 1" by simp_all
    have "second_pass_loop abp tls [] None (i + 10) cl = Some (Inl UnboundLocalError)"
      using Suc.hyps(1) [OF n k, of "i + 10"] Suc.prems by (simp add: algebra_simps)
    with False inloop show ?thesis by (subst second_pass_loop.simps) simp
  qed
qed

text \<open>
  C10, as amended. A case is scanned while \<open>j\<close> is unassigned, and its first pass leaves
  \<open>j\<close> unassigned (it never entered a recovery search). Then it found no event, and if
  some window the cursor of the second pass reaches (\<open>trackStartIndex + 10 * k\<close>) has a
  mean of at least 75, the second pass reads the unassigned \<open>j\<close> and the scan of the case
  fails with \<open>UnboundLocalError\<close>; no clean window is recorded.
\<close>

theorem unassigned_j_fails:
  assumes "first_pass abp None = (iohEvents, tsi, None)"
    and "0 \<le> k" "start_index tsi + 10 * k < track_length_seconds abp - 1800"
    and "mean_ge (window_mean abp (start_index tsi + 10 * k) (start_index tsi + 10 * k + 1800)) 75"
  shows "iohEvents = []
     \<and> second_pass abp iohEvents tsi None = Some (Inl UnboundLocalError)
     \<and> scan_case abp None = Some (Inl UnboundLocalError)"
proof -
  from first_pass_loop_unbound [OF assms(1) [unfolded first_pass_def]]
  have e: "iohEvents = []" by simp
  have s: "second_pass abp [] tsi None = Some (Inl UnboundLocalError)"
    unfolding second_pass_def by (rule second_pass_loop_unbound [OF assms(2,3,4)])
  from e s assms(1) show ?thesis by (simp add: scan_case_def)
qed

lemma second_pass_loop_skip:
  assumes "\<forall>k. k < n \<longrightarrow>
      i + 10 * int k < tls - 1800
      \<and> latest_overlap (i + 10 * int k) (i + 10 * int k + 1800) evs None = None
      \<and> (\<not> mean_ge (window_mean abp (i + 10 * int k) (i + 10 * int k + 1800)) 75
         \<or> (\<exists>j. jv = Some j \<and> latest_overlap (j - 1800) j evs None \<noteq> None))"
  shows "second_pass_loop abp tls evs jv i cl = second_pass_loop abp tls evs jv (i + 10 * int n) cl"
  using assms
proof (induction n arbitrary: i)
  case 0
  show ?case by simp
next
  case (Suc n)
  from Suc.prems [rule_format, of 0]
  have a: "i < tls - 1800" "latest_overlap i (i + 1800) evs None = None"
    "\<not> mean_ge (window_mean abp i (i + 1800)) 75
         \<or> (\<exists>j. jv = Some j \<and> latest_overlap (j - 1800) j evs None \<noteq> None)" by simp_all
  have "second_pass_loop abp tls evs jv i cl = second_pass_loop abp tls evs jv (i + 10) cl"
    using a by (subst second_pass_loop.simps) auto
  also have "\<dots> = second_pass_loop abp tls evs jv (i + 10 + 10 * int n) cl"
  proof (rule Suc.IH, intro allI impI)
    fix k assume "k < n"
    then have "Suc k < Suc n" by simp
    from Suc.prems [rule_format, OF this]
    show "i + 10 + 10 * int k < tls - 1800
      \<and> latest_overlap (i + 10 + 10 * int k) (i + 10 + 10 * int k + 1800) evs None = None
      \<and> (\<not> mean_ge (window_mean abp (i + 10 + 10 * int k) (i + 10 + 10 * int k + 1800)) 75
         \<or> (\<exists>j. jv = Some j \<and> latest_overlap (j - 1800) j evs None \<noteq> None))"
      by (simp add: algebra_simps)
  qed
  finally show ?case by (simp add: algebra_simps)
qed

section \<open>The track that never recovers, and the steady track\<close>

lemma unrecovered_length: "track_length_seconds unrecovered_track = 400"
  by (simp add: track_length_seconds_def unrecovered_track_def ABP_ECG_SRATE_HZ_def)

lemma unrecovered_mean:
  assumes "0 \<le> a" "a \<le> b"
  shows "window_mean unrecovered_track a b =
     (if snd (window_total [(300, 80), (100, 50)] a b) = 0 then None
      else Some (fst (window_total [(300, 80), (100, 50)] a b)
                  / of_int (snd (window_total [(300, 80), (100, 50)] a b))))"
  unfolding unrecovered_track_def using assms by (intro window_mean_piecewise) simp_all

lemma unrecovered_live_at_0: "mean_ge (window_mean unrecovered_track 0 60) 65"
  using unrecovered_mean [of 0 60] by (simp add: mean_ge_def Let_def)

lemma unrecovered_high_before_271:
  "0 \<le> k \<Longrightarrow> k < 271 \<Longrightarrow> \<not> mean_lt (window_mean unrecovered_track k (k + 60)) 65"
  by (simp add: unrecovered_mean mean_lt_def Let_def min_def max_def field_simps)

lemma unrecovered_low_at_271: "mean_lt (window_mean unrecovered_track 271 331) 65"
  using unrecovered_mean [of 271 331] by (simp add: mean_lt_def Let_def)

lemma unrecovered_no_recovery:
  "331 \<le> j \<Longrightarrow> j < 400 \<Longrightarrow> \<not> mean_ge (window_mean unrecovered_track (j - 60) j) 65"
  using unrecovered_mean [of "j - 60" j]
  by (simp add: mean_ge_def Let_def min_def max_def field_simps)

lemma unrecovered_search:
  "forward_search unrecovered_track 400 331 jv = (None, Some 399)"
  using forward_search_None [of 331 400 unrecovered_track jv]
  by (simp add: unrecovered_no_recovery)

lemma unrecovered_first_pass_value:
  "first_pass unrecovered_track jv = ([], Some 0, Some 399)"
proof -
  have "first_pass unrecovered_track jv = first_pass_loop unrecovered_track 400 0 False None [] jv"
    by (simp add: first_pass_def unrecovered_length)
  also have "\<dots> = first_pass_loop unrecovered_track 400 1 True (Some 0) [] jv"
    using unrecovered_live_at_0 by simp
  also have "\<dots> = first_pass_loop unrecovered_track 400 271 True (Some 0) [] jv"
    by (rule first_pass_loop_skip) (simp_all add: unrecovered_high_before_271)
  also have "\<dots> = ([], Some 0, Some 399)"
    using unrecovered_low_at_271 unrecovered_search [of jv] by simp
  finally show ?thesis .
qed

text \<open>
  On the track that never recovers, the scan is live from second 0 and reaches second
  271, the first one whose window holds 31 seconds at 50 mmHg; no recovery follows.
\<close>

theorem unrecovered_event_is_dropped_witness:
  "first_pass_loop unrecovered_track 400 271 True (Some 0) [] None = ([], Some 0, Some 399)"
  using unrecovered_event_is_dropped [of 271 400 unrecovered_track "Some 0" "[]" None]
  by (simp add: unrecovered_low_at_271 unrecovered_no_recovery)

lemma steady_length: "track_length_seconds steady_track = 1802"
  by (simp add: track_length_seconds_def steady_track_def ABP_ECG_SRATE_HZ_def)

lemma steady_mean:
  assumes "0 \<le> a" "a \<le> b"
  shows "window_mean steady_track a b =
     (if snd (window_total [(1802, 80)] a b) = 0 then None
      else Some (fst (window_total [(1802, 80)] a b) / of_int (snd (window_total [(1802, 80)] a b))))"
  unfolding steady_track_def using assms by (intro window_mean_piecewise) simp_all

lemma steady_live_at_0: "mean_ge (window_mean steady_track 0 60) 65"
  using steady_mean [of 0 60] by (simp add: mean_ge_def Let_def)

lemma steady_never_low:
  "0 \<le> k \<Longrightarrow> k < 1742 \<Longrightarrow> \<not> mean_lt (window_mean steady_track k (k + 60)) 65"
  by (simp add: steady_mean mean_lt_def Let_def min_def max_def field_simps)

lemma steady_window_high: "mean_ge (window_mean steady_track 0 1800) 75"
  using steady_mean [of 0 1800] by (simp add: mean_ge_def Let_def)

lemma steady_first_pass_value: "first_pass steady_track jv = ([], Some 0, jv)"
proof -
  have "first_pass steady_track jv = first_pass_loop steady_track 1802 0 False None [] jv"
    by (simp add: first_pass_def steady_length)
  also have "\<dots> = first_pass_loop steady_track 1802 1 True (Some 0) [] jv"
    using steady_live_at_0 by simp
  also have "\<dots> = first_pass_loop steady_track 1802 1742 True (Some 0) [] jv"
    by (rule first_pass_loop_skip) (simp_all add: steady_never_low)
  also have "\<dots> = ([], Some 0, jv)" by simp
  finally show ?thesis .
qed

lemma steady_second_pass_stale:
  "second_pass steady_track [] (Some 0) (Some j) = Some (Inr [(0, 1800)])"
proof -
  have "second_pass steady_track [] (Some 0) (Some j)
      = second_pass_loop steady_track 1802 [] (Some j) 0 []"
    by (simp add: second_pass_def steady_length start_index_def)
  also have "\<dots> = second_pass_loop steady_track 1802 [] (Some j) 1801 [(0, 1800)]"
    using steady_window_high by (subst second_pass_loop.simps) simp
  also have "\<dots> = Some (Inr [(0, 1800)])"
    by (subst second_pass_loop.simps) simp
  finally show ?thesis .
qed

lemma steady_scan_stale:
  "scan_case steady_track (Some j)
     = Some (Inr ([], [(600, 660), (900, 960), (1200, 1260)], Some j))"
  by (simp add: scan_case_def steady_first_pass_value steady_second_pass_stale third_pass_def
      start_index_def Let_def)

lemma unrecovered_scan: "scan_case unrecovered_track jv = Some (Inr ([], [], Some 399))"
proof -
  have "second_pass unrecovered_track [] (Some 0) (Some 399) = Some (Inr [])"
    unfolding second_pass_def unrecovered_length start_index_def
    by (subst second_pass_loop.simps) simp
  then show ?thesis
    by (simp add: scan_case_def unrecovered_first_pass_value third_pass_def start_index_def)
qed

text \<open>
  On the steady track the first pass finds no event, the window \<open>(0, 1800)\<close> has mean 80,
  and the scan fails when \<open>j\<close> is unassigned.
\<close>

theorem unassigned_j_fails_witness:
  "first_pass steady_track None = ([], Some 0, None)
   \<and> second_pass steady_track [] (Some 0) None = Some (Inl UnboundLocalError)
   \<and> scan_case steady_track None = Some (Inl UnboundLocalError)"
  using unassigned_j_fails [of steady_track "[]" "Some 0" 0]
  by (simp add: steady_first_pass_value steady_length start_index_def steady_window_high)

text \<open>
  C10, as stated, fails for a case that is not the first of its run. \<open>j\<close> is a local of
  \<open>extract_segments\<close>, not of the body of the loop over the cases: in the run over the
  cases 1 (the track that never recovers) and 2 (the steady track), the first pass of
  case 2 enters no recovery search whatever \<open>j\<close> is, its window \<open>(0, 1800)\<close> has mean 80,
  and yet the run does not fail: the second pass reads the \<open>j\<close> that case 1 left, and
  the clean window of case 2 is recorded and its three segments are written.
\<close>

theorem stale_j_from_earlier_case_does_not_fail:
  "(\<forall>jv. first_pass steady_track jv = ([], Some 0, jv))
   \<and> mean_ge (window_mean steady_track 0 1800) 75
   \<and> extract_segments (\<lambda>c. if c = 1 then unrecovered_track else steady_track) [1, 2] Map.empty
       = Some ([2 \<mapsto> [FalseTrack 600 660, FalseTrack 900 960, FalseTrack 1200 1260]], None)"
  by (simp add: steady_first_pass_value steady_window_high extract_segments_def
      areCaseSegmentsCached_def unrecovered_scan steady_scan_stale saveCaseSegments_def)

section \<open>Clean windows of a case; running a case twice\<close>

lemma first_pass_events_wf:
  "first_pass abp jv = (evs, tsi, jv') \<Longrightarrow> list_all (\<lambda>ev. fst ev < snd ev) evs"
proof -
  assume r: "first_pass abp jv = (evs, tsi, jv')"
  from first_pass_loop_inv [OF r [unfolded first_pass_def]]
  have "list_all (\<lambda>ev. fst ev + 60 \<le> snd ev) evs" by simp
  then show ?thesis by (auto simp: list_all_iff)
qed

text \<open>
  What the second pass does guarantee, for every case and whatever \<open>j\<close> is on entry: over
  the events of the first pass it returns, and when it returns clean windows, each is
  exactly 1800 seconds long, the three-case test of the window against every IOH event
  of the case is false, and the windows are in strictly increasing order, each ending
  before the next starts. The three-case test is not intersection; the last section
  shows a recorded window with an event inside it.
\<close>

lemma clean_windows_fixed_length_ordered_code_test:
  assumes "first_pass abp jv = (iohEvents, tsi, jv')"
  shows "(\<exists>r. second_pass abp iohEvents tsi jv' = Some r)
     \<and> (\<forall>cleanEvents. second_pass abp iohEvents tsi jv' = Some (Inr cleanEvents) \<longrightarrow>
           list_all (\<lambda>w. snd w - fst w = 1800 \<and> list_all (\<lambda>ev. \<not> overlaps w ev) iohEvents)
             cleanEvents
           \<and> sorted_wrt (\<lambda>a b. fst a < fst b \<and> snd a < fst b \<and> \<not> overlaps a b \<and> \<not> overlaps b a)
               cleanEvents)"
proof -
  have ok0: "windows_ok iohEvents []" by (simp add: windows_ok_def)
  from second_pass_loop_total_inv [OF first_pass_events_wf [OF assms] ok0, of "start_index tsi" abp
      "track_length_seconds abp" jv']
  obtain r where r: "second_pass abp iohEvents tsi jv' = Some r"
    and inv: "\<forall>cl. r = Inr cl \<longrightarrow> windows_ok iohEvents cl"
    by (auto simp: second_pass_def)
  have "list_all (\<lambda>w. snd w - fst w = 1800 \<and> list_all (\<lambda>ev. \<not> overlaps w ev) iohEvents) cl
      \<and> sorted_wrt (\<lambda>a b. fst a < fst b \<and> snd a < fst b \<and> \<not> overlaps a b \<and> \<not> overlaps b a) cl"
    if "windows_ok iohEvents cl" for cl
  proof -
    from that have s: "sorted_wrt (\<lambda>a b. snd a < fst b) cl"
      and l: "list_all (\<lambda>w. snd w = fst w + 1800 \<and> list_all (\<lambda>ev. \<not> overlaps w ev) iohEvents) cl"
      by (simp_all add: windows_ok_def)
    have "sorted_wrt (\<lambda>a b. fst a < fst b \<and> snd a < fst b \<and> \<not> overlaps a b \<and> \<not> overlaps b a) cl"
    proof (rule sorted_wrt_mono_rel [OF _ s])
      fix a b assume "a \<in> set cl" "b \<in> set cl" "snd a < fst b"
      with l have "snd a = fst a + 1800" "snd b = fst b + 1800" "snd a < fst b"
        by (auto simp: list_all_iff)
      then show "fst a < fst b \<and> snd a < fst b \<and> \<not> overlaps a b \<and> \<not> overlaps b a"
        by (auto simp: overlaps_def)
    qed
    moreover from l
    have "list_all (\<lambda>w. snd w - fst w = 1800 \<and> list_all (\<lambda>ev. \<not> overlaps w ev) iohEvents) cl"
      by (auto simp: list_all_iff)
    ultimately show ?thesis by simp
  qed
  with r inv show ?thesis by auto
qed

text \<open>
  The steady track, scanned after a case that left \<open>j = 399\<close>: one clean window,
  \<open>(0, 1800)\<close>.
\<close>

lemma clean_windows_steady_track:
  "first_pass steady_track (Some 399) = ([], Some 0, Some 399)
   \<and> second_pass steady_track [] (Some 0) (Some 399) = Some (Inr [(0, 1800)])
   \<and> list_all (\<lambda>w. snd w - fst w = 1800 \<and> list_all (\<lambda>ev. \<not> overlaps w ev) []) [(0, 1800)]
   \<and> sorted_wrt (\<lambda>a b. fst a < fst b \<and> snd a < fst b \<and> \<not> overlaps a b \<and> \<not> overlaps b a)
        [(0, 1800)]"
  using clean_windows_fixed_length_ordered_code_test [of steady_track "Some 399" "[]" "Some 0" "Some 399"]
  by (simp add: steady_first_pass_value steady_second_pass_stale)

lemma saveCaseSegments_cached:
  "areCaseSegmentsCached (saveCaseSegments fs c pos neg) c \<longleftrightarrow>
     areCaseSegmentsCached fs c \<or> \<not> (pos = [] \<and> neg = [])"
  by (simp add: saveCaseSegments_def areCaseSegmentsCached_def)

lemma saveCaseSegments_nothing: "saveCaseSegments fs c [] [] = fs"
  by (simp add: saveCaseSegments_def)

lemma extract_one_cached:
  "areCaseSegmentsCached fs c \<Longrightarrow> extract_segments tracks [c] fs = Some (fs, None)"
  by (simp add: extract_segments_def)

lemma extract_one_twice:
  assumes "extract_segments tracks [c] fs = Some (fs1, err)"
  shows "extract_segments tracks [c] fs1 = Some (fs1, err)
    \<and> (areCaseSegmentsCached fs1 c \<longleftrightarrow>
         areCaseSegmentsCached fs c
         \<or> (\<exists>pos neg j. scan_case (tracks c) None = Some (Inr (pos, neg, j))
               \<and> \<not> (pos = [] \<and> neg = [])))"
proof (cases "areCaseSegmentsCached fs c")
  case True
  with assms show ?thesis by (auto simp: extract_segments_def)
next
  case False
  show ?thesis
  proof (cases "scan_case (tracks c) None")
    case None
    with False assms show ?thesis by (simp add: extract_segments_def)
  next
    case (Some r)
    show ?thesis
    proof (cases r)
      case (Inl e)
      with Some False assms show ?thesis by (auto simp: extract_segments_def)
    next
      case (Inr t)
      obtain pos neg j where t: "t = (pos, neg, j)" by (cases t)
      from assms False Some Inr t
      have fs1: "fs1 = saveCaseSegments fs c pos neg" and err: "err = None"
        by (auto simp: extract_segments_def)
      show ?thesis
      proof (cases "pos = [] \<and> neg = []")
        case True
        with fs1 have "fs1 = fs" by (simp add: saveCaseSegments_nothing)
        with assms False Some Inr t True show ?thesis by auto
      next
        case nonempty: False
        then have "areCaseSegmentsCached fs1 c"
          unfolding fs1 by (simp add: saveCaseSegments_cached)
        with Some Inr t nonempty err show ?thesis
          by (auto simp: extract_segments_def)
      qed
    qed
  qed
qed

lemma empty_track_scan: "scan_case [] None = Some (Inr ([], [], None))"
proof -
  have a: "first_pass [] None = ([], None, None)"
    by (simp add: first_pass_def track_length_seconds_def)
  have "second_pass [] [] None None = Some (Inr [])"
    unfolding second_pass_def track_length_seconds_def start_index_def
    by (subst second_pass_loop.simps) simp
  with a show ?thesis by (simp add: scan_case_def third_pass_def start_index_def)
qed

text \<open>
  C9, as stated, fails for a case with no segment: \<open>saveCaseSegments\<close> returns before it
  creates the folder, so after the first run the marker is not set and the second run
  scans the case again. An empty track is such a case.
\<close>

theorem zero_segment_case_leaves_no_marker:
  "scan_case [] None = Some (Inr ([], [], None))
   \<and> extract_segments (\<lambda>c. []) [1] Map.empty = Some (Map.empty, None)
   \<and> \<not> areCaseSegmentsCached Map.empty 1"
  by (simp add: empty_track_scan extract_segments_def areCaseSegmentsCached_def
      saveCaseSegments_def)

section \<open>Scenario 1 to the end, and the track of the stale recheck\<close>

lemma scenario1_no_clean_window:
  "465 \<le> c \<Longrightarrow> c < 1800 \<Longrightarrow> \<not> mean_ge (window_mean scenario1 c (c + 1800)) 75"
  by (simp add: scenario1_window_mean mean_ge_def Let_def min_def max_def field_simps)

lemma scenario1_second_pass:
  "second_pass scenario1 [(256, 464)] (Some 0) (Some 465) = Some (Inr [])"
proof -
  have "second_pass scenario1 [(256, 464)] (Some 0) (Some 465)
      = second_pass_loop scenario1 3600 [(256, 464)] (Some 465) 0 []"
    by (simp add: second_pass_def scenario1_length start_index_def)
  also have "\<dots> = second_pass_loop scenario1 3600 [(256, 464)] (Some 465) 465 []"
    by (subst second_pass_loop.simps) (simp add: overlaps_def)
  also have "\<dots> = second_pass_loop scenario1 3600 [(256, 464)] (Some 465) (465 + 10 * int 134) []"
    by (rule second_pass_loop_skip) (simp add: overlaps_def scenario1_no_clean_window)
  also have "\<dots> = Some (Inr [])"
    by (subst second_pass_loop.simps) simp
  finally show ?thesis .
qed

lemma scenario1_scan:
  "scan_case scenario1 jv = Some (Inr ([(76, 136, 3)], [], Some 465))"
  by (simp add: scan_case_def scenario1_first_pass_value scenario1_second_pass third_pass_def
      start_index_def ALL_PREDICTION_WINDOWS_def Let_def)

lemma scenario1_run:
  "extract_segments (\<lambda>c. scenario1) [7] Map.empty = Some ([7 \<mapsto> [TrueTrack 76 136 3]], None)"
  by (simp add: extract_segments_def areCaseSegmentsCached_def scenario1_scan saveCaseSegments_def)

text \<open>
  C9, as amended. When a run over one case returns, a second run over the same case
  returns the same store and the same outcome: nothing more is persisted. After the
  first run the marker is set exactly when it was set before, or the scan of the case
  produced at least one segment; and when it is set, the second run skips the case
  without reading its track. A case that yields no segment leaves no marker and is
  scanned again.
\<close>

theorem second_run_persists_nothing:
  assumes "extract_segments tracks [c] fs = Some (fs1, err)"
  shows "extract_segments tracks [c] fs1 = Some (fs1, err)
    \<and> (areCaseSegmentsCached fs1 c \<longleftrightarrow>
         areCaseSegmentsCached fs c
         \<or> (\<exists>pos neg j. scan_case (tracks c) None = Some (Inr (pos, neg, j))
               \<and> \<not> (pos = [] \<and> neg = [])))
    \<and> (areCaseSegmentsCached fs1 c \<longrightarrow>
         (\<forall>tracks'. extract_segments tracks' [c] fs1 = Some (fs1, None)))"
  using extract_one_twice [OF assms] extract_one_cached by blast

text \<open>
  Scenario 1 as case 7: the first run writes one positive segment, three minutes before
  the event; the second run skips the case.
\<close>

theorem second_run_persists_nothing_witness:
  "extract_segments (\<lambda>c. scenario1) [7] Map.empty = Some ([7 \<mapsto> [TrueTrack 76 136 3]], None)
   \<and> extract_segments (\<lambda>c. scenario1) [7] [7 \<mapsto> [TrueTrack 76 136 3]]
       = Some ([7 \<mapsto> [TrueTrack 76 136 3]], None)
   \<and> areCaseSegmentsCached [7 \<mapsto> [TrueTrack 76 136 3]] 7
   \<and> (\<forall>tracks'. extract_segments tracks' [7] [7 \<mapsto> [TrueTrack 76 136 3]]
         = Some ([7 \<mapsto> [TrueTrack 76 136 3]], None))"
  using second_run_persists_nothing [OF scenario1_run]
  by (simp add: scenario1_run areCaseSegmentsCached_def)

lemma recheck_length: "track_length_seconds recheck_track = 3600"
  by (simp add: track_length_seconds_def recheck_track_def ABP_ECG_SRATE_HZ_def)

lemma recheck_window_mean:
  assumes "0 \<le> a" "a \<le> b"
  shows "window_mean recheck_track a b =
     (if snd (window_total [(300, 80), (120, 50), (3180, 80)] a b) = 0 then None
      else Some (fst (window_total [(300, 80), (120, 50), (3180, 80)] a b)
                  / of_int (snd (window_total [(300, 80), (120, 50), (3180, 80)] a b))))"
  unfolding recheck_track_def using assms by (intro window_mean_piecewise) simp_all

lemma recheck_live_at_0: "mean_ge (window_mean recheck_track 0 60) 65"
  using recheck_window_mean [of 0 60] by (simp add: mean_ge_def Let_def)

lemma recheck_high_before_271:
  "0 \<le> k \<Longrightarrow> k < 271 \<Longrightarrow> \<not> mean_lt (window_mean recheck_track k (k + 60)) 65"
  by (simp add: recheck_window_mean mean_lt_def Let_def min_def max_def field_simps)

lemma recheck_low_at_271: "mean_lt (window_mean recheck_track 271 331) 65"
  using recheck_window_mean [of 271 331] by (simp add: mean_lt_def Let_def)

lemma recheck_no_recovery_before_450:
  "331 \<le> j \<Longrightarrow> j < 450 \<Longrightarrow> \<not> mean_ge (window_mean recheck_track (j - 60) j) 65"
  using recheck_window_mean [of "j - 60" j]
  by (simp add: mean_ge_def Let_def min_def max_def field_simps)

lemma recheck_recovery_at_450: "mean_ge (window_mean recheck_track 390 450) 65"
  using recheck_window_mean [of 390 450] by (simp add: mean_ge_def Let_def)

lemma recheck_high_from_450:
  "450 \<le> k \<Longrightarrow> k < 3540 \<Longrightarrow> \<not> mean_lt (window_mean recheck_track k (k + 60)) 65"
  by (simp add: recheck_window_mean mean_lt_def Let_def min_def max_def field_simps)

lemma recheck_window_high:
  "450 \<le> c \<Longrightarrow> c < 1800 \<Longrightarrow> mean_ge (window_mean recheck_track c (c + 1800)) 75"
  by (simp add: recheck_window_mean mean_ge_def Let_def min_def max_def field_simps)

lemma recheck_search: "forward_search recheck_track 3600 331 jv = (Some 449, Some 450)"
proof -
  have "forward_search recheck_track 3600 331 jv = forward_search recheck_track 3600 450 (Some (450 - 1))"
    by (rule forward_search_skip) (simp_all add: recheck_no_recovery_before_450)
  also have "\<dots> = (Some 449, Some 450)"
    using recheck_recovery_at_450 by simp
  finally show ?thesis .
qed

lemma recheck_first_pass_value: "first_pass recheck_track jv = ([(271, 449)], Some 0, Some 450)"
proof -
  have "first_pass recheck_track jv = first_pass_loop recheck_track 3600 0 False None [] jv"
    by (simp add: first_pass_def recheck_length)
  also have "\<dots> = first_pass_loop recheck_track 3600 1 True (Some 0) [] jv"
    using recheck_live_at_0 by simp
  also have "\<dots> = first_pass_loop recheck_track 3600 271 True (Some 0) [] jv"
    by (rule first_pass_loop_skip) (simp_all add: recheck_high_before_271)
  also have "\<dots> = first_pass_loop recheck_track 3600 450 True (Some 0) [(271, 449)] (Some 450)"
    using recheck_low_at_271 recheck_search [of jv] by simp
  also have "\<dots> = first_pass_loop recheck_track 3600 3540 True (Some 0) [(271, 449)] (Some 450)"
    by (rule first_pass_loop_skip) (simp_all add: recheck_high_from_450)
  also have "\<dots> = ([(271, 449)], Some 0, Some 450)"
    by simp
  finally show ?thesis .
qed

lemma recheck_second_pass:
  "second_pass recheck_track [(271, 449)] (Some 0) (Some 450) = Some (Inr [])"
proof -
  have "second_pass recheck_track [(271, 449)] (Some 0) (Some 450)
      = second_pass_loop recheck_track 3600 [(271, 449)] (Some 450) 0 []"
    by (simp add: second_pass_def recheck_length start_index_def)
  also have "\<dots> = second_pass_loop recheck_track 3600 [(271, 449)] (Some 450) 450 []"
    by (subst second_pass_loop.simps) (simp add: overlaps_def)
  also have "\<dots> = second_pass_loop recheck_track 3600 [(271, 449)] (Some 450) (450 + 10 * int 135) []"
    by (rule second_pass_loop_skip) (simp add: overlaps_def)
  also have "\<dots> = Some (Inr [])"
    by (subst second_pass_loop.simps) simp
  finally show ?thesis .
qed

text \<open>
  One turn of the second pass on a window that overlaps no event. A mean below 75 (or
  NaN) moves the cursor by 10 seconds. A mean of at least 75 records the window and moves
  the cursor past it only when the recheck on \<open>(j - 1800, j)\<close> finds no overlap either.
\<close>

lemma second_pass_loop_low_mean:
  assumes "i < tls - 1800" "latest_overlap i (i + 1800) evs None = None"
    and "\<not> mean_ge (window_mean abp i (i + 1800)) 75"
  shows "second_pass_loop abp tls evs jv i cl = second_pass_loop abp tls evs jv (i + 10) cl"
  using assms by (subst second_pass_loop.simps) simp

lemma second_pass_loop_records:
  assumes "i < tls - 1800" "latest_overlap i (i + 1800) evs None = None"
    and "mean_ge (window_mean abp i (i + 1800)) 75"
    and "latest_overlap (j - 1800) j evs None = None"
  shows "second_pass_loop abp tls evs (Some j) i cl
     = second_pass_loop abp tls evs (Some j) (i + 1800 + 1) (cl @ [(i, i + 1800)])"
  using assms by (subst second_pass_loop.simps) simp

lemma second_pass_loop_recheck_rejects:
  assumes "i < tls - 1800" "latest_overlap i (i + 1800) evs None = None"
    and "mean_ge (window_mean abp i (i + 1800)) 75"
    and "latest_overlap (j - 1800) j evs None \<noteq> None"
  shows "second_pass_loop abp tls evs (Some j) i cl
     = second_pass_loop abp tls evs (Some j) (i + 10) cl"
  using assms by (subst second_pass_loop.simps) auto

text \<open>
  C3. On the track of scenario 1 with 80 mmHg in place of 70 mmHg, the first pass finds
  the event \<open>(271, 449)\<close> and leaves \<open>j = 450\<close>. The candidate window \<open>(450, 2250)\<close> overlaps no
  event and has mean 80, but the recheck tests \<open>(j - 1800, j) = (-1350, 450)\<close>, which
  contains the event: the window is not recorded, the cursor moves on by 10 seconds, and
  so for every later window. The case ends with no clean window and no negative segment.
\<close>

theorem stale_recheck_drops_clean_window:
  "first_pass recheck_track None = ([(271, 449)], Some 0, Some 450)
   \<and> latest_overlap 450 (450 + 1800) [(271, 449)] None = None
   \<and> mean_ge (window_mean recheck_track 450 (450 + 1800)) 75
   \<and> second_pass recheck_track [(271, 449)] (Some 0) (Some 450) = Some (Inr [])
   \<and> scan_case recheck_track None = Some (Inr ([(91, 151, 3)], [], Some 450))"
  using recheck_window_high [of 450]
  by (simp add: recheck_first_pass_value recheck_second_pass overlaps_def scan_case_def
      third_pass_def start_index_def ALL_PREDICTION_WINDOWS_def Let_def)

section \<open>The overlap test against intersection\<close>

lemma dip_length: "track_length_seconds dip_track = 3700"
  by (simp add: track_length_seconds_def dip_track_def ABP_ECG_SRATE_HZ_def)

lemma dip_window_mean:
  assumes "0 \<le> a" "a \<le> b"
  shows "window_mean dip_track a b =
     (if snd (window_total [(1700, 100), (76, 40), (1824, 100), (100, 40)] a b) = 0 then None
      else Some (fst (window_total [(1700, 100), (76, 40), (1824, 100), (100, 40)] a b)
                  / of_int (snd (window_total [(1700, 100), (76, 40), (1824, 100), (100, 40)] a b))))"
  unfolding dip_track_def using assms by (intro window_mean_piecewise) simp_all

lemma dip_live_at_0: "mean_ge (window_mean dip_track 0 60) 65"
  using dip_window_mean [of 0 60] by (simp add: mean_ge_def Let_def)

lemma dip_high_before_1676:
  "0 \<le> k \<Longrightarrow> k < 1676 \<Longrightarrow> \<not> mean_lt (window_mean dip_track k (k + 60)) 65"
  by (simp add: dip_window_mean mean_lt_def Let_def min_def max_def field_simps)

lemma dip_low_at_1676: "mean_lt (window_mean dip_track 1676 1736) 65"
  using dip_window_mean [of 1676 1736] by (simp add: mean_lt_def Let_def)

lemma dip_no_recovery_before_1801:
  "1736 \<le> j \<Longrightarrow> j < 1801 \<Longrightarrow> \<not> mean_ge (window_mean dip_track (j - 60) j) 65"
  using dip_window_mean [of "j - 60" j]
  by (simp add: mean_ge_def Let_def min_def max_def field_simps)

lemma dip_recovery_at_1801: "mean_ge (window_mean dip_track 1741 1801) 65"
  using dip_window_mean [of 1741 1801] by (simp add: mean_ge_def Let_def)

lemma dip_high_from_1801:
  "1801 \<le> k \<Longrightarrow> k < 3576 \<Longrightarrow> \<not> mean_lt (window_mean dip_track k (k + 60)) 65"
  by (simp add: dip_window_mean mean_lt_def Let_def min_def max_def field_simps)

lemma dip_low_at_3576: "mean_lt (window_mean dip_track 3576 3636) 65"
  using dip_window_mean [of 3576 3636] by (simp add: mean_lt_def Let_def)

lemma dip_no_recovery_at_end:
  "3636 \<le> j \<Longrightarrow> j < 3700 \<Longrightarrow> \<not> mean_ge (window_mean dip_track (j - 60) j) 65"
  using dip_window_mean [of "j - 60" j]
  by (simp add: mean_ge_def Let_def min_def max_def field_simps)

lemma dip_first_window_high: "mean_ge (window_mean dip_track 0 1800) 75"
  using dip_window_mean [of 0 1800] by (simp add: mean_ge_def Let_def)

lemma dip_second_window_high: "mean_ge (window_mean dip_track 1801 3601) 75"
  using dip_window_mean [of 1801 3601] by (simp add: mean_ge_def Let_def)

lemma dip_search: "forward_search dip_track 3700 1736 jv = (Some 1800, Some 1801)"
proof -
  have "forward_search dip_track 3700 1736 jv = forward_search dip_track 3700 1801 (Some (1801 - 1))"
    by (rule forward_search_skip) (simp_all add: dip_no_recovery_before_1801)
  also have "\<dots> = (Some 1800, Some 1801)"
    using dip_recovery_at_1801 by simp
  finally show ?thesis .
qed

lemma dip_search_end: "forward_search dip_track 3700 3636 jv = (None, Some 3699)"
  using forward_search_None [of 3636 3700 dip_track jv]
  by (simp add: dip_no_recovery_at_end)

lemma dip_first_pass_value: "first_pass dip_track jv = ([(1676, 1800)], Some 0, Some 3699)"
proof -
  have "first_pass dip_track jv = first_pass_loop dip_track 3700 0 False None [] jv"
    by (simp add: first_pass_def dip_length)
  also have "\<dots> = first_pass_loop dip_track 3700 1 True (Some 0) [] jv"
    using dip_live_at_0 by simp
  also have "\<dots> = first_pass_loop dip_track 3700 1676 True (Some 0) [] jv"
    by (rule first_pass_loop_skip) (simp_all add: dip_high_before_1676)
  also have "\<dots> = first_pass_loop dip_track 3700 1801 True (Some 0) [(1676, 1800)] (Some 1801)"
    using dip_low_at_1676 dip_search [of jv] by simp
  also have "\<dots> = first_pass_loop dip_track 3700 3576 True (Some 0) [(1676, 1800)] (Some 1801)"
    by (rule first_pass_loop_skip) (simp_all add: dip_high_from_1801)
  also have "\<dots> = ([(1676, 1800)], Some 0, Some 3699)"
    using dip_low_at_3576 dip_search_end [of "Some 1801"] by simp
  finally show ?thesis .
qed

lemma dip_second_pass:
  "second_pass dip_track [(1676, 1800)] (Some 0) (Some 3699) = Some (Inr [(0, 1800), (1801, 3601)])"
proof -
  have "second_pass dip_track [(1676, 1800)] (Some 0) (Some 3699)
      = second_pass_loop dip_track 3700 [(1676, 1800)] (Some 3699) 0 []"
    by (simp add: second_pass_def dip_length start_index_def)
  also have "\<dots> = second_pass_loop dip_track 3700 [(1676, 1800)] (Some 3699) 1801 [(0, 1800)]"
    using dip_first_window_high by (subst second_pass_loop.simps) (simp add: overlaps_def)
  also have "\<dots> = second_pass_loop dip_track 3700 [(1676, 1800)] (Some 3699) 3602
      [(0, 1800), (1801, 3601)]"
    using dip_second_window_high by (subst second_pass_loop.simps) (simp add: overlaps_def)
  also have "\<dots> = Some (Inr [(0, 1800), (1801, 3601)])"
    by (subst second_pass_loop.simps) simp
  finally show ?thesis .
qed

lemma not_overlaps_intersects:
  assumes "\<not> overlaps w ev" "intersects w ev"
  shows "fst w < fst ev \<and> snd ev = snd w"
  using assms by (auto simp: overlaps_def intersects_def)

text \<open>
  C4. Not every recorded clean window is disjoint from the IOH events of its case. On the
  track with the dip over \<open>[1700, 1776)\<close> the first pass finds the event \<open>(1676, 1800)\<close>
  and the second pass records the clean windows \<open>(0, 1800)\<close> and \<open>(1801, 3601)\<close>. The
  window \<open>(0, 1800)\<close> and the event share the seconds \<open>[1676, 1800)\<close>: the three-case
  test misses an event that ends exactly where the window ends. The negative segments
  of the case are cut from both windows. (The windows are 1800 seconds long and in
  increasing order, as the claim says.)
\<close>

theorem clean_window_contains_event:
  "first_pass dip_track None = ([(1676, 1800)], Some 0, Some 3699)
   \<and> second_pass dip_track [(1676, 1800)] (Some 0) (Some 3699)
       = Some (Inr [(0, 1800), (1801, 3601)])
   \<and> intersects (0, 1800) (1676, 1800)
   \<and> scan_case dip_track None
       = Some (Inr ([(1496, 1556, 3), (1376, 1436, 5), (1076, 1136, 10), (776, 836, 15)],
                    [(600, 660), (900, 960), (1200, 1260), (2401, 2461), (2701, 2761), (3001, 3061)],
                    Some 3699))"
  by (simp add: dip_first_pass_value dip_second_pass intersects_def scan_case_def third_pass_def
      ALL_PREDICTION_WINDOWS_def Let_def start_index_def)

lemma intersects_shared_second:
  "intersects a b \<longleftrightarrow> (\<exists>t. fst a \<le> t \<and> t < snd a \<and> fst b \<le> t \<and> t < snd b)"
proof
  assume "intersects a b"
  then have "fst a \<le> max (fst a) (fst b) \<and> max (fst a) (fst b) < snd a
      \<and> fst b \<le> max (fst a) (fst b) \<and> max (fst a) (fst b) < snd b"
    by (auto simp: intersects_def)
  then show "\<exists>t. fst a \<le> t \<and> t < snd a \<and> fst b \<le> t \<and> t < snd b" by blast
next
  assume "\<exists>t. fst a \<le> t \<and> t < snd a \<and> fst b \<le> t \<and> t < snd b"
  then show "intersects a b" by (auto simp: intersects_def)
qed

text \<open>
  C5. The three-case test is not symmetric, and it is not intersection. On the track
  with two dips the first pass finds the event \<open>(1676, 1800)\<close>, and the second pass tests
  the window \<open>(0, 1800)\<close> against it. The two share the seconds \<open>[1676, 1800)\<close>, yet the
  test of the window against the event is false (the event does not lie strictly inside
  the window, and the end of the window is compared as if it were a second of the
  window), while the test with the arguments exchanged is true; the window is recorded
  as clean. In the other direction, the window \<open>(0, 1000)\<close> and the event
  \<open>(1000, 1800)\<close> share no second, and the test is true.
\<close>

theorem overlaps_asymmetric_at_shared_end:
  "\<not> overlaps (0, 1800) (1676, 1800) \<and> overlaps (1676, 1800) (0, 1800)
   \<and> intersects (0, 1800) (1676, 1800)
   \<and> overlaps (0, 1000) (1000, 1800) \<and> \<not> intersects (0, 1000) (1000, 1800)
   \<and> first_pass dip_track None = ([(1676, 1800)], Some 0, Some 3699)
   \<and> second_pass dip_track [(1676, 1800)] (Some 0) (Some 3699)
       = Some (Inr [(0, 1800), (1801, 3601)])"
  by (simp add: overlaps_def intersects_def dip_first_pass_value dip_second_pass)

section \<open>Positive segments and the previous event\<close>

text \<open>
  What the third pass does guarantee, over the events of a first pass: every emitted
  segment is the candidate of some event and some configured lead time, its start is
  neither negative nor before \<open>trackStartIndex\<close>, and it shares no second with the
  previous event (an event is at least 60 seconds long, so the case the three-case test
  misses cannot arise for a 60-second candidate).
\<close>

lemma positive_segments_clear_of_previous_event:
  assumes "first_pass abp jv = (iohEvents, tsi, jv')"
    and "(s, e, w) \<in> set (third_pass iohEvents (start_index tsi))"
  shows "0 \<le> s \<and> start_index tsi \<le> s \<and> e = s + 60
     \<and> (\<exists>k < length iohEvents. w \<in> set ALL_PREDICTION_WINDOWS \<and> s = fst (iohEvents ! k) - w * 60
           \<and> (0 < k \<longrightarrow> \<not> intersects (s, e) (iohEvents ! (k - 1))))"
proof -
  from assms(2) [unfolded third_pass_member] obtain k where k: "k < length iohEvents"
    "w \<in> set ALL_PREDICTION_WINDOWS" "s = fst (iohEvents ! k) - w * 60" "e = s + 60"
    "0 \<le> s" "start_index tsi \<le> s" "0 < k \<longrightarrow> \<not> overlaps (s, e) (iohEvents ! (k - 1))"
    by blast
  have "\<not> intersects (s, e) (iohEvents ! (k - 1))" if "0 < k"
  proof
    assume i: "intersects (s, e) (iohEvents ! (k - 1))"
    from that k(7) have "\<not> overlaps (s, e) (iohEvents ! (k - 1))" by simp
    from not_overlaps_intersects [OF this i]
    have a: "s < fst (iohEvents ! (k - 1))" "snd (iohEvents ! (k - 1)) = e" by simp_all
    from that k(1) have "iohEvents ! (k - 1) \<in> set iohEvents" by simp
    moreover from first_pass_loop_inv [OF assms(1) [unfolded first_pass_def]]
    have "list_all (\<lambda>ev. fst ev + 60 \<le> snd ev) iohEvents" by simp
    ultimately have "fst (iohEvents ! (k - 1)) + 60 \<le> snd (iohEvents ! (k - 1))"
      by (auto simp: list_all_iff)
    with a k(4) show False by simp
  qed
  with k show ?thesis by blast
qed

lemma two_event_length: "track_length_seconds two_event_track = 1300"
  by (simp add: track_length_seconds_def two_event_track_def ABP_ECG_SRATE_HZ_def)

lemma two_event_window_mean:
  assumes "0 \<le> a" "a \<le> b"
  shows "window_mean two_event_track a b =
     (if snd (window_total [(1024, 100), (36, 40), (84, 100), (36, 40), (120, 100)] a b) = 0 then None
      else Some (fst (window_total [(1024, 100), (36, 40), (84, 100), (36, 40), (120, 100)] a b)
                  / of_int (snd (window_total [(1024, 100), (36, 40), (84, 100), (36, 40), (120, 100)] a b))))"
  unfolding two_event_track_def using assms by (intro window_mean_piecewise) simp_all

lemma two_event_live_at_0: "mean_ge (window_mean two_event_track 0 60) 65"
  using two_event_window_mean [of 0 60] by (simp add: mean_ge_def Let_def)

lemma two_event_high_before_1000:
  "0 \<le> k \<Longrightarrow> k < 1000 \<Longrightarrow> \<not> mean_lt (window_mean two_event_track k (k + 60)) 65"
  by (simp add: two_event_window_mean mean_lt_def Let_def min_def max_def field_simps)

lemma two_event_low_at_1000: "mean_lt (window_mean two_event_track 1000 1060) 65"
  using two_event_window_mean [of 1000 1060] by (simp add: mean_lt_def Let_def)

lemma two_event_no_recovery_before_1085:
  "1060 \<le> j \<Longrightarrow> j < 1085 \<Longrightarrow> \<not> mean_ge (window_mean two_event_track (j - 60) j) 65"
  using two_event_window_mean [of "j - 60" j]
  by (simp add: mean_ge_def Let_def min_def max_def field_simps)

lemma two_event_recovery_at_1085: "mean_ge (window_mean two_event_track 1025 1085) 65"
  using two_event_window_mean [of 1025 1085] by (simp add: mean_ge_def Let_def)

lemma two_event_high_from_1085:
  "1085 \<le> k \<Longrightarrow> k < 1120 \<Longrightarrow> \<not> mean_lt (window_mean two_event_track k (k + 60)) 65"
  by (simp add: two_event_window_mean mean_lt_def Let_def min_def max_def field_simps)

lemma two_event_low_at_1120: "mean_lt (window_mean two_event_track 1120 1180) 65"
  using two_event_window_mean [of 1120 1180] by (simp add: mean_lt_def Let_def)

lemma two_event_no_recovery_before_1205:
  "1180 \<le> j \<Longrightarrow> j < 1205 \<Longrightarrow> \<not> mean_ge (window_mean two_event_track (j - 60) j) 65"
  using two_event_window_mean [of "j - 60" j]
  by (simp add: mean_ge_def Let_def min_def max_def field_simps)

lemma two_event_recovery_at_1205: "mean_ge (window_mean two_event_track 1145 1205) 65"
  using two_event_window_mean [of 1145 1205] by (simp add: mean_ge_def Let_def)

lemma two_event_high_from_1205:
  "1205 \<le> k \<Longrightarrow> k < 1240 \<Longrightarrow> \<not> mean_lt (window_mean two_event_track k (k + 60)) 65"
  by (simp add: two_event_window_mean mean_lt_def Let_def min_def max_def field_simps)

lemma two_event_search_1: "forward_search two_event_track 1300 1060 jv = (Some 1084, Some 1085)"
proof -
  have "forward_search two_event_track 1300 1060 jv
      = forward_search two_event_track 1300 1085 (Some (1085 - 1))"
    by (rule forward_search_skip) (simp_all add: two_event_no_recovery_before_1085)
  also have "\<dots> = (Some 1084, Some 1085)"
    using two_event_recovery_at_1085 by simp
  finally show ?thesis .
qed

lemma two_event_search_2: "forward_search two_event_track 1300 1180 jv = (Some 1204, Some 1205)"
proof -
  have "forward_search two_event_track 1300 1180 jv
      = forward_search two_event_track 1300 1205 (Some (1205 - 1))"
    by (rule forward_search_skip) (simp_all add: two_event_no_recovery_before_1205)
  also have "\<dots> = (Some 1204, Some 1205)"
    using two_event_recovery_at_1205 by simp
  finally show ?thesis .
qed

lemma two_event_first_pass_value:
  "first_pass two_event_track jv = ([(1000, 1084), (1120, 1204)], Some 0, Some 1205)"
proof -
  have "first_pass two_event_track jv = first_pass_loop two_event_track 1300 0 False None [] jv"
    by (simp add: first_pass_def two_event_length)
  also have "\<dots> = first_pass_loop two_event_track 1300 1 True (Some 0) [] jv"
    using two_event_live_at_0 by simp
  also have "\<dots> = first_pass_loop two_event_track 1300 1000 True (Some 0) [] jv"
    by (rule first_pass_loop_skip) (simp_all add: two_event_high_before_1000)
  also have "\<dots> = first_pass_loop two_event_track 1300 1085 True (Some 0) [(1000, 1084)] (Some 1085)"
    using two_event_low_at_1000 two_event_search_1 [of jv] by simp
  also have "\<dots> = first_pass_loop two_event_track 1300 1120 True (Some 0) [(1000, 1084)] (Some 1085)"
    by (rule first_pass_loop_skip) (simp_all add: two_event_high_from_1085)
  also have "\<dots> = first_pass_loop two_event_track 1300 1205 True (Some 0)
      [(1000, 1084), (1120, 1204)] (Some 1205)"
    using two_event_low_at_1120 two_event_search_2 [of "Some 1085"] by simp
  also have "\<dots> = first_pass_loop two_event_track 1300 1240 True (Some 0)
      [(1000, 1084), (1120, 1204)] (Some 1205)"
    by (rule first_pass_loop_skip) (simp_all add: two_event_high_from_1205)
  also have "\<dots> = ([(1000, 1084), (1120, 1204)], Some 0, Some 1205)"
    by simp
  finally show ?thesis .
qed

lemma two_event_third_pass:
  "third_pass [(1000, 1084), (1120, 1204)] 0
     = [(820, 880, 3), (700, 760, 5), (400, 460, 10), (100, 160, 15),
        (820, 880, 5), (520, 580, 10), (220, 280, 15)]"
  by (simp add: third_pass_def ALL_PREDICTION_WINDOWS_def Let_def overlaps_def upt_rec numeral_2_eq_2)

text \<open>
  C6. Not every candidate that no rejection rule fires on is emitted. On the track with
  two short dips the first pass finds the events \<open>(1000, 1084)\<close> and \<open>(1120, 1204)\<close>. The
  candidate three minutes before the second event is \<open>(940, 1000, 3)\<close>: its start is
  neither negative nor before \<open>trackStartIndex = 0\<close>, and it shares no second with the
  previous event, which starts at second 1000. The three-case test of the code is true
  all the same (the end of the candidate is compared as if it were one of its seconds),
  and the candidate is not among the positive segments.
\<close>

theorem touching_candidate_is_rejected:
  "first_pass two_event_track None = ([(1000, 1084), (1120, 1204)], Some 0, Some 1205)
   \<and> (0 :: int) \<le> 1120 - 3 * 60 \<and> start_index (Some 0) \<le> 1120 - 3 * 60
   \<and> \<not> intersects (1120 - 3 * 60, 1120 - 3 * 60 + 60) (1000, 1084)
   \<and> overlaps (1120 - 3 * 60, 1120 - 3 * 60 + 60) (1000, 1084)
   \<and> (1120 - 3 * 60, 1120 - 3 * 60 + 60, 3)
        \<notin> set (third_pass [(1000, 1084), (1120, 1204)] (start_index (Some 0)))"
  by (simp add: two_event_first_pass_value two_event_third_pass intersects_def overlaps_def
      start_index_def)

end
